theory Spec2Isabelle
  imports Complex_Main "HOL-Library.Word"
begin

unbundle bit_operations_syntax

section \<open>Annotation overlay of the board: a shallow embedding of svg.ts\<close>

text \<open>
  JavaScript numbers are modelled by exact reals. The results that are not finite numbers
  (\<open>NaN\<close>, \<open>Infinity\<close>) are written out where the code can produce them (the
  division in \<open>pos2user\<close>). Strings are \<open>string\<close>; the raw markup of a custom
  graphic, whose characters are read by \<open>charCodeAt\<close>, is the list of its UTF-16 code
  units.
\<close>

subsection \<open>Values of the host language\<close>

type_synonym js_string = "16 word list"

text \<open>
  The entries of the arrays that the hash functions filter and join: numbers, booleans,
  strings and \<open>undefined\<close>.
\<close>

datatype jsval = JNum real | JBool bool | JStr string | JUndef

text \<open>\<open>filter(x => x)\<close>: the truthy values.\<close>

fun truthy :: "jsval \<Rightarrow> bool" where
  "truthy (JNum x) = (x \<noteq> 0)"
| "truthy (JBool b) = b"
| "truthy (JStr s) = (s \<noteq> [])"
| "truthy JUndef = False"

text \<open>
  \<open>Array.prototype.join\<close> turns each entry into text. The text of a number comes from
  the runtime (\<open>Number.prototype.toString\<close>); it is the parameter \<open>ts\<close> of every
  function that prints a number.
\<close>

fun to_text :: "(real \<Rightarrow> string) \<Rightarrow> jsval \<Rightarrow> string" where
  "to_text ts (JNum x) = ts x"
| "to_text ts (JBool b) = (if b then ''true'' else ''false'')"
| "to_text ts (JStr s) = s"
| "to_text ts JUndef = []"

fun join :: "string \<Rightarrow> string list \<Rightarrow> string" where
  "join sep [] = []"
| "join sep [x] = x"
| "join sep (x # y # ys) = x @ sep @ join sep (y # ys)"

definition filter_join :: "(real \<Rightarrow> string) \<Rightarrow> string \<Rightarrow> jsval list \<Rightarrow> string" where
  "filter_join ts sep vs = join sep (map (to_text ts) (filter truthy vs))"

text \<open>The decimal digits of a natural number, as \<open>toString\<close> prints an unsigned integer.\<close>

definition digit :: "nat \<Rightarrow> char" where
  "digit n = ''0123456789'' ! n"

fun dec_nat :: "nat \<Rightarrow> string" where
  "dec_nat n = (if n < 10 then [digit n] else dec_nat (n div 10) @ [digit (n mod 10)])"

declare dec_nat.simps [simp del]

text \<open>
  The text of a number with an integral value (of magnitude below \<open>10^21\<close>, where
  \<open>toString\<close> prints plain digits). It stands for \<open>ts\<close> in the examples, which use
  integral numbers only.
\<close>

definition int_text :: "real \<Rightarrow> string" where
  "int_text x = (if x < 0 then CHR ''-'' # dec_nat (nat \<lfloor>- x\<rfloor>) else dec_nat (nat \<lfloor>x\<rfloor>))"

subsection \<open>The hash of a custom graphic\<close>

text \<open>
  One round of the loop of \<open>customSvgHash\<close>: \<open>h = ((h << 5) - h + s.charCodeAt(i)) >>> 0\<close>.
  The shift works on the 32-bit two's complement image of \<open>h\<close> and gives a signed
  result; the subtraction and the addition are exact; \<open>>>> 0\<close> reduces modulo \<open>2^32\<close>.
\<close>

definition shl5 :: "int \<Rightarrow> int" where
  "shl5 h = sint (push_bit 5 (word_of_int h :: 32 word))"

definition hash_round :: "int \<Rightarrow> 16 word \<Rightarrow> int" where
  "hash_round h c = (shl5 h - h + uint c) mod 2 ^ 32"

fun hash_loop :: "int \<Rightarrow> js_string \<Rightarrow> int" where
  "hash_loop h [] = h"
| "hash_loop h (c # cs) = hash_loop (hash_round h c) cs"

definition customSvgHash :: "js_string \<Rightarrow> string" where
  "customSvgHash s = ''custom-'' @ dec_nat (nat (hash_loop 0 s))"

text \<open>The rolling hash of the specification: multiplier 31, reduced modulo \<open>2^32\<close>.\<close>

fun rolling31 :: "int \<Rightarrow> js_string \<Rightarrow> int" where
  "rolling31 h [] = h"
| "rolling31 h (c # cs) = rolling31 ((31 * h + uint c) mod 2 ^ 32) cs"

subsection \<open>Geometry\<close>

datatype color = White | Black

type_synonym pos = "int \<times> int"

record bounds =
  width :: real
  height :: real

definition orient :: "pos \<Rightarrow> color \<Rightarrow> pos" where
  "orient p c = (if c = White then p else (7 - fst p, 7 - snd p))"

text \<open>
  \<open>Math.min(1, a / b)\<close>. A division by zero gives \<open>Infinity\<close>, \<open>-Infinity\<close> or
  \<open>NaN\<close>; the minimum with 1 is finite only for \<open>Infinity\<close>. \<open>None\<close> stands for a
  result that is not a finite number.
\<close>

definition min1_ratio :: "real \<Rightarrow> real \<Rightarrow> real option" where
  "min1_ratio a b =
     (if b \<noteq> 0 then Some (min 1 (a / b))
      else if 0 < a then Some 1
      else None)"

text \<open>
  \<open>pos2user\<close>. The sizes of a bounding rectangle are not negative; then either both
  scales are finite, or both sizes are 0 and both coordinates are \<open>NaN\<close>, for which
  \<open>None\<close> stands.
\<close>

definition pos2user :: "pos \<Rightarrow> bounds \<Rightarrow> (real \<times> real) option" where
  "pos2user p b =
     (case (min1_ratio (width b) (height b), min1_ratio (height b) (width b)) of
        (Some xScale, Some yScale) \<Rightarrow>
          Some ((of_int (fst p) - 3.5) * xScale, (3.5 - of_int (snd p)) * yScale)
      | _ \<Rightarrow> None)"

subsection \<open>Shapes, brushes and the state that is read\<close>

text \<open>
  The declarations of draw.ts, types.ts and state.ts are not among the sources; the records
  hold the fields that svg.ts reads. An optional field is an \<open>option\<close>. A square
  (\<open>cg.Key\<close>) is a string.
\<close>

record drawShapePiece =
  role :: string
  pcolor :: color
  scale :: "real option"

record drawModifiers =
  mLineWidth :: "real option"
  hilite :: "bool option"

record drawBrush =
  key :: string
  color :: string
  opacity :: real
  lineWidth :: real

record drawShape =
  orig :: string
  dest :: "string option"
  brush :: string
  piece :: "drawShapePiece option"
  modifiers :: "drawModifiers option"
  customSvg :: "js_string option"

text \<open>
  The shape being drawn (\<open>DrawCurrent\<close>): the fields that the cast to \<open>DrawShape\<close>
  reads, and the square under the pointer.
\<close>

record drawCurrent =
  asShape :: drawShape
  mouseSq :: "string option"

record drawable =
  shapes :: "drawShape list"
  autoShapes :: "drawShape list"
  current :: "drawCurrent option"
  brushes :: "string \<rightharpoonup> drawBrush"
  prevSvgHash :: string

record state =
  drawable :: drawable
  orientation :: color
  dom_bounds :: bounds

record syncableShape =
  shape :: drawShape
  isCurrent :: bool
  hash :: string

type_synonym arrowDests = "string \<rightharpoonup> nat"

text \<open>An optional string used as a condition: the string when it is there and not empty.\<close>

definition present :: "'a list option \<Rightarrow> 'a list option" where
  "present x = (case x of None \<Rightarrow> None | Some v \<Rightarrow> if v \<noteq> [] then Some v else None)"

text \<open>The entries that optional fields put into an array.\<close>

definition opt_num :: "real option \<Rightarrow> jsval" where
  "opt_num x = (case x of None \<Rightarrow> JUndef | Some v \<Rightarrow> JNum v)"

definition opt_bool :: "bool option \<Rightarrow> jsval" where
  "opt_bool x = (case x of None \<Rightarrow> JUndef | Some v \<Rightarrow> JBool v)"

definition opt_str :: "string option \<Rightarrow> jsval" where
  "opt_str x = (case x of None \<Rightarrow> JUndef | Some v \<Rightarrow> JStr v)"

text \<open>\<open>a || b\<close> on numbers, the first of which may be absent.\<close>

definition js_or_num :: "real option \<Rightarrow> real \<Rightarrow> real" where
  "js_or_num a b = (case a of None \<Rightarrow> b | Some v \<Rightarrow> if v \<noteq> 0 then v else b)"

definition color_text :: "color \<Rightarrow> string" where
  "color_text c = (case c of White \<Rightarrow> ''white'' | Black \<Rightarrow> ''black'')"

subsection \<open>Brushes\<close>

text \<open>
  \<open>Math.round\<close> rounds to the nearest integer, a half upwards, as \<open>round\<close> does
  (\<open>round x = \<lfloor>x + 1/2\<rfloor>\<close>). The key is the array of the base key and the override
  width, filtered and joined with the empty separator.
\<close>

definition makeCustomBrush :: "(real \<Rightarrow> string) \<Rightarrow> drawBrush \<Rightarrow> drawModifiers \<Rightarrow> drawBrush" where
  "makeCustomBrush ts base m =
     \<lparr> key = filter_join ts [] [JStr (key base), opt_num (mLineWidth m)],
       color = color base,
       opacity = of_int (round (opacity base * 10)) / 10,
       lineWidth = of_int (round (js_or_num (mLineWidth m) (lineWidth base))) \<rparr>"

definition lineWidth_of :: "drawBrush \<Rightarrow> bool \<Rightarrow> real" where
  "lineWidth_of b cur =
     ((if lineWidth b \<noteq> 0 then lineWidth b else 10) * (if cur then 0.85 else 1)) / 64"

definition opacity_of :: "drawBrush \<Rightarrow> bool \<Rightarrow> real" where
  "opacity_of b cur = (if opacity b \<noteq> 0 then opacity b else 1) * (if cur then 0.9 else 1)"

definition arrowMargin :: "bool \<Rightarrow> real" where
  "arrowMargin shorten = (if shorten then 20 else 10) / 64"

subsection \<open>The tally of arrow destinations\<close>

text \<open>\<open>(arrowDests.get(dest) || 0)\<close>\<close>

definition dest_count :: "arrowDests \<Rightarrow> string \<Rightarrow> nat" where
  "dest_count ad k = (case ad k of None \<Rightarrow> 0 | Some n \<Rightarrow> n)"

text \<open>The first loop of \<open>renderSvg\<close>.\<close>

definition count_dest :: "arrowDests \<Rightarrow> drawShape \<Rightarrow> arrowDests" where
  "count_dest ad s =
     (case present (dest s) of
        None \<Rightarrow> ad
      | Some k \<Rightarrow> ad(k \<mapsto> dest_count ad k + 1))"

fun tally :: "arrowDests \<Rightarrow> drawShape list \<Rightarrow> arrowDests" where
  "tally ad [] = ad"
| "tally ad (s # ss) = tally (count_dest ad s) ss"

subsection \<open>Hashes\<close>

text \<open>The color of a piece is one of the strings \<open>white\<close> and \<open>black\<close>.\<close>

definition pieceHash :: "(real \<Rightarrow> string) \<Rightarrow> drawShapePiece \<Rightarrow> string" where
  "pieceHash ts p =
     filter_join ts '','' [JStr (color_text (pcolor p)), JStr (role p), opt_num (scale p)]"

definition modifiersHash :: "(real \<Rightarrow> string) \<Rightarrow> drawModifiers \<Rightarrow> string" where
  "modifiersHash ts m = filter_join ts '','' [opt_num (mLineWidth m), opt_bool (hilite m)]"

text \<open>The array that \<open>shapeHash\<close> filters and joins.\<close>

definition hash_entries ::
  "(real \<Rightarrow> string) \<Rightarrow> drawShape \<Rightarrow> arrowDests \<Rightarrow> bool \<Rightarrow> bounds \<Rightarrow> jsval list" where
  "hash_entries ts s ad cur b =
     [ JNum (width b),
       JNum (height b),
       JBool cur,
       JStr (orig s),
       opt_str (dest s),
       JStr (brush s),
       (case dest s of
          None \<Rightarrow> JUndef
        | Some k \<Rightarrow> if k \<noteq> [] then JBool (dest_count ad k > 1) else JStr []),
       (case piece s of None \<Rightarrow> JUndef | Some p \<Rightarrow> JStr (pieceHash ts p)),
       (case modifiers s of None \<Rightarrow> JUndef | Some m \<Rightarrow> JStr (modifiersHash ts m)),
       (case customSvg s of
          None \<Rightarrow> JUndef
        | Some c \<Rightarrow> if c \<noteq> [] then JStr (customSvgHash c) else JStr []) ]"

definition shapeHash ::
  "(real \<Rightarrow> string) \<Rightarrow> drawShape \<Rightarrow> arrowDests \<Rightarrow> bool \<Rightarrow> bounds \<Rightarrow> string" where
  "shapeHash ts s ad cur b = filter_join ts '','' (hash_entries ts s ad cur b)"

subsection \<open>Scene nodes\<close>

text \<open>
  An element has a tag, its attributes in the order they were set, and its children. The
  value of an attribute is kept as the pieces the code builds it from: text, numbers, and
  numbers that are not finite. \<open>Markup\<close> is content assigned through \<open>innerHTML\<close>.
\<close>

datatype frag = Txt string | Num real | NotFinite

type_synonym aval = "frag list"

datatype elem = Elem string "(string \<times> aval) list" "elem list" | Markup js_string

definition num_frag :: "real option \<Rightarrow> frag" where
  "num_frag x = (case x of None \<Rightarrow> NotFinite | Some v \<Rightarrow> Num v)"

definition createElement :: "string \<Rightarrow> elem" where
  "createElement t = Elem t [] []"

fun set_attr :: "string \<Rightarrow> aval \<Rightarrow> (string \<times> aval) list \<Rightarrow> (string \<times> aval) list" where
  "set_attr n v [] = [(n, v)]"
| "set_attr n v (p # ps) = (if fst p = n then (n, v) # ps else p # set_attr n v ps)"

fun setAttribute :: "elem \<Rightarrow> string \<Rightarrow> aval \<Rightarrow> elem" where
  "setAttribute (Elem t as cs) n v = Elem t (set_attr n v as) cs"
| "setAttribute (Markup m) n v = Markup m"

fun getAttribute :: "elem \<Rightarrow> string \<Rightarrow> aval option" where
  "getAttribute (Elem t as cs) n = map_of as n"
| "getAttribute (Markup m) n = None"

fun appendChild :: "elem \<Rightarrow> elem \<Rightarrow> elem" where
  "appendChild (Elem t as cs) c = Elem t as (cs @ [c])"
| "appendChild (Markup m) c = Markup m"

fun setAttributes :: "elem \<Rightarrow> (string \<times> aval) list \<Rightarrow> elem" where
  "setAttributes el [] = el"
| "setAttributes el (p # ps) = setAttributes (setAttribute el (fst p) (snd p)) ps"

subsection \<open>Rendering one shape\<close>

definition renderCustomSvg :: "js_string \<Rightarrow> pos \<Rightarrow> bounds \<Rightarrow> elem" where
  "renderCustomSvg content p b =
     (let xy = pos2user p b;
          g = setAttributes (createElement ''g'')
                [(''transform'', [Txt ''translate('', num_frag (map_option fst xy), Txt '','',
                                  num_frag (map_option snd xy), Txt '')''])];
          svg = setAttributes (createElement ''svg'')
                [(''width'', [Num 1]), (''height'', [Num 1]), (''viewBox'', [Txt ''0 0 100 100''])]
      in appendChild g (appendChild svg (Markup content)))"

definition renderSquare :: "drawBrush \<Rightarrow> pos \<Rightarrow> bool \<Rightarrow> bounds \<Rightarrow> elem" where
  "renderSquare b p cur bnds =
     (let xy = pos2user p bnds
      in setAttributes (createElement ''rect'')
           [(''stroke'', [Txt (color b)]),
            (''stroke-width'', [Num (4 / 64)]),
            (''clip-path'', [Txt ''inset(0)'']),
            (''fill'', [Txt ''none'']),
            (''opacity'', [Num (opacity_of b cur)]),
            (''width'', [Num 1]),
            (''height'', [Num 1]),
            (''x'', [num_frag (map_option (\<lambda>q. fst q - 0.5) xy)]),
            (''y'', [num_frag (map_option (\<lambda>q. snd q - 0.5) xy)])])"

text \<open>\<open>Math.atan2\<close>, on reals.\<close>

definition atan2 :: "real \<Rightarrow> real \<Rightarrow> real" where
  "atan2 y x = Arg (Complex x y)"

text \<open>A binary operation on numbers either of which may not be finite.\<close>

definition lift2 :: "(real \<Rightarrow> real \<Rightarrow> real) \<Rightarrow> real option \<Rightarrow> real option \<Rightarrow> real option" where
  "lift2 f x y = (case (x, y) of (Some u, Some v) \<Rightarrow> Some (f u v) | _ \<Rightarrow> None)"

text \<open>The margin \<open>m\<close> of \<open>renderInner\<close>.\<close>

definition shaft_margin :: "bool \<Rightarrow> bool \<Rightarrow> real" where
  "shaft_margin shorten cur = arrowMargin (shorten \<and> \<not> cur)"

definition renderInner ::
  "drawBrush \<Rightarrow> pos \<Rightarrow> pos \<Rightarrow> bool \<Rightarrow> bool \<Rightarrow> bounds \<Rightarrow> bool \<Rightarrow> elem" where
  "renderInner b og ds cur shorten bnds isHilite =
     (let m = shaft_margin shorten cur;
          a = pos2user og bnds;
          c = pos2user ds bnds;
          dx = lift2 (\<lambda>u v. u - v) (map_option fst c) (map_option fst a);
          dy = lift2 (\<lambda>u v. u - v) (map_option snd c) (map_option snd a);
          angle = lift2 atan2 dy dx;
          xo = map_option (\<lambda>t. cos t * m) angle;
          yo = map_option (\<lambda>t. sin t * m) angle;
          h = lineWidth_of b cur / 3 + (if isHilite then 0.04 else 0);
          w = lift2 (\<lambda>u v. sqrt (u * u + v * v) - m) dx dy;
          group = setAttributes (createElement ''g'') [];
          arrowRect = setAttributes (createElement ''rect'')
            [(''stroke'', [Txt ''none'']),
             (''stroke-linejoin'', [Txt ''round'']),
             (''mask'', [Txt ''url(#markerLinearOpacityGradientMask)'']),
             (''fill'', [Txt (if isHilite then ''white''
                             else ''url(#linearOpacityGradient-'' @ key b @ '')'')]),
             (''opacity'', [Num (if isHilite then 1 else opacity_of b cur)]),
             (''height'', [Num h]),
             (''width'', [num_frag w]),
             (''x'', [num_frag (map_option fst a)]),
             (''y'', [num_frag (map_option (\<lambda>a. snd a - h / 2) a)]),
             (''transform'', [Txt ''rotate('', num_frag (map_option (\<lambda>t. (t * 180) / pi) angle),
                              Txt '' '', num_frag (map_option fst a),
                              Txt '' '', num_frag (map_option snd a), Txt '')''])];
          arrowLine = setAttributes (createElement ''line'')
            [(''stroke'', [Txt ''transparent'']),
             (''stroke-width'', [Num h]),
             (''stroke-linecap'', [Txt ''round'']),
             (''marker-end'', [Txt (''url(#arrowhead-'' @ (if isHilite then ''hilite'' else key b)
                                     @ '')'')]),
             (''opacity'', [Num (if isHilite then 1 else opacity_of b cur)]),
             (''x1'', [num_frag (map_option fst a)]),
             (''y1'', [num_frag (map_option snd a)]),
             (''x2'', [num_frag (lift2 (\<lambda>u v. u - v) (map_option fst c) xo)]),
             (''y2'', [num_frag (lift2 (\<lambda>u v. u - v) (map_option snd c) yo)])]
      in appendChild (appendChild group arrowRect) arrowLine)"

definition renderRectangleArrow ::
  "drawBrush \<Rightarrow> pos \<Rightarrow> pos \<Rightarrow> bool \<Rightarrow> bool \<Rightarrow> bounds \<Rightarrow> bool \<Rightarrow> elem" where
  "renderRectangleArrow b og ds cur shorten bnds hilited =
     (if hilited
      then appendChild (appendChild (createElement ''g'')
             (renderInner b og ds cur shorten bnds True))
             (renderInner b og ds cur shorten bnds False)
      else renderInner b og ds cur shorten bnds False)"

definition renderMarker :: "drawBrush \<Rightarrow> elem" where
  "renderMarker b =
     (let marker = setAttributes (createElement ''marker'')
            [(''id'', [Txt (''arrowhead-'' @ key b)]),
             (''orient'', [Txt ''auto'']),
             (''markerWidth'', [Num 4.8]),
             (''markerHeight'', [Num 8]),
             (''refX'', [Num (if key b = ''hilite'' then 3.86 else 4)]),
             (''refY'', [Num 4])];
          marker = appendChild marker
            (setAttributes (createElement ''path'')
              [(''d'', [Txt ''M0.5,0.5 L3.7,4 L0.5,7.5'']),
               (''stroke-linecap'', [Txt ''round'']),
               (''stroke-linejoin'', [Txt ''round'']),
               (''stroke'', [Txt (color b)]),
               (''fill'', [Txt ''none''])])
      in setAttribute marker ''cgKey'' [Txt (key b)])"

definition renderLinearOpacityGradient :: "drawBrush \<Rightarrow> elem" where
  "renderLinearOpacityGradient b =
     (let linearGradient = setAttributes (createElement ''linearGradient'')
            [(''id'', [Txt (''linearOpacityGradient-'' @ key b)]),
             (''x1'', [Txt ''0%'']),
             (''x2'', [Txt ''100%'']),
             (''y1'', [Txt ''0%'']),
             (''y2'', [Txt ''0%''])];
          stop1 = setAttributes (createElement ''stop'')
            [(''offset'', [Txt ''0%'']),
             (''stop-color'', [Txt (color b)]),
             (''stop-opacity'', [Num 0])];
          stop2 = setAttributes (createElement ''stop'')
            [(''offset'', [Txt ''100%'']),
             (''stop-color'', [Txt (color b)]),
             (''stop-opacity'', [Num 1])]
      in appendChild (appendChild linearGradient stop1) stop2)"

text \<open>
  Reading a field of a brush that the catalog does not hold throws; the model returns the
  exception as a value.
\<close>

datatype error = TypeError

text \<open>
  The brush of a shape: the catalog's, replaced by a custom brush when the shape has
  modifiers. \<open>None\<close> when the catalog has no brush of that name; the code then throws
  at the first field it reads.
\<close>

definition resolve_brush ::
  "(real \<Rightarrow> string) \<Rightarrow> (string \<rightharpoonup> drawBrush) \<Rightarrow> drawShape \<Rightarrow> drawBrush option" where
  "resolve_brush ts brs s =
     (case brs (brush s) of
        None \<Rightarrow> None
      | Some base \<Rightarrow>
          Some (case modifiers s of None \<Rightarrow> base | Some m \<Rightarrow> makeCustomBrush ts base m))"

text \<open>\<open>shape.modifiers?.hilite\<close>, as a condition.\<close>

definition wants_hilite :: "drawShape \<Rightarrow> bool" where
  "wants_hilite s = (case modifiers s of None \<Rightarrow> False | Some m \<Rightarrow> hilite m = Some True)"

text \<open>
  \<open>key2pos\<close> of util.ts, which is not among the sources, is the parameter \<open>k2p\<close>.
\<close>

definition renderShape ::
  "(real \<Rightarrow> string) \<Rightarrow> (string \<Rightarrow> pos) \<Rightarrow> state \<Rightarrow> syncableShape \<Rightarrow> (string \<rightharpoonup> drawBrush)
     \<Rightarrow> arrowDests \<Rightarrow> bounds \<Rightarrow> error + elem" where
  "renderShape ts k2p st sc brs ad bnds =
     (let s = shape sc;
          og = orient (k2p (orig s)) (orientation st);
          square = (case brs (brush s) of
                      None \<Rightarrow> Inl TypeError
                    | Some b \<Rightarrow> Inr (renderSquare b og (isCurrent sc) bnds));
          el =
            (case present (customSvg s) of
               Some content \<Rightarrow> Inr (renderCustomSvg content og bnds)
             | None \<Rightarrow>
                (case present (dest s) of
                   Some d \<Rightarrow>
                     if d \<noteq> orig s
                     then (case resolve_brush ts brs s of
                             None \<Rightarrow> Inl TypeError
                           | Some b \<Rightarrow>
                               Inr (renderRectangleArrow
                                     b
                                     og
                                     (orient (k2p d) (orientation st))
                                     (isCurrent sc)
                                     (dest_count ad d > 1)
                                     bnds
                                     (wants_hilite s)))
                     else square
                 | None \<Rightarrow> square))
      in map_sum id (\<lambda>e. setAttribute e ''cgHash'' [Txt (hash sc)]) el)"

subsection \<open>The definitions pool\<close>

definition hilite_brush :: drawBrush where
  "hilite_brush = \<lparr> key = ''hilite'', color = ''white'', opacity = 1, lineWidth = 1 \<rparr>"

text \<open>\<open>Map.prototype.set\<close>: a known key keeps its place, a new one goes last.\<close>

fun map_set :: "string \<Rightarrow> drawBrush \<Rightarrow> (string \<times> drawBrush) list \<Rightarrow> (string \<times> drawBrush) list" where
  "map_set k v [] = [(k, v)]"
| "map_set k v (p # ps) = (if fst p = k then (k, v) # ps else p # map_set k v ps)"

text \<open>The first loop of \<open>syncDefs\<close>: the brushes that the shapes with a destination use.\<close>

fun collect_brushes ::
  "(real \<Rightarrow> string) \<Rightarrow> drawable \<Rightarrow> (string \<times> drawBrush) list \<Rightarrow> syncableShape list
     \<Rightarrow> error + (string \<times> drawBrush) list" where
  "collect_brushes ts d acc [] = Inr acc"
| "collect_brushes ts d acc (s # ss) =
     (case present (dest (shape s)) of
        None \<Rightarrow> collect_brushes ts d acc ss
      | Some k \<Rightarrow>
         (case resolve_brush ts (brushes d) (shape s) of
            None \<Rightarrow> Inl TypeError
          | Some b \<Rightarrow>
             (let acc1 = (if wants_hilite (shape s) then map_set ''hilite'' hilite_brush acc
                          else acc)
              in collect_brushes ts d (map_set (key b) b acc1) ss)))"

text \<open>The second loop: the \<open>cgKey\<close> attributes of the children of the pool.\<close>

definition keysInDom :: "elem list \<Rightarrow> aval option list" where
  "keysInDom pool = map (\<lambda>el. getAttribute el ''cgKey'') pool"

text \<open>The third loop: a marker and a gradient for each brush whose key no child carries.\<close>

fun append_defs :: "aval option list \<Rightarrow> elem list \<Rightarrow> (string \<times> drawBrush) list \<Rightarrow> elem list" where
  "append_defs ks pool [] = pool"
| "append_defs ks pool (p # ps) =
     append_defs ks
       (if Some [Txt (fst p)] \<in> set ks then pool
        else pool @ [renderMarker (snd p), renderLinearOpacityGradient (snd p)])
       ps"

definition syncDefs ::
  "(real \<Rightarrow> string) \<Rightarrow> drawable \<Rightarrow> syncableShape list \<Rightarrow> elem list \<Rightarrow> error + elem list" where
  "syncDefs ts d shs pool =
     (case collect_brushes ts d [] shs of
        Inl e \<Rightarrow> Inl e
      | Inr bs \<Rightarrow> Inr (append_defs (keysInDom pool) pool bs))"

subsection \<open>Reconciling a layer\<close>

fun render_all :: "(syncableShape \<Rightarrow> error + elem) \<Rightarrow> syncableShape list \<Rightarrow> error + elem list" where
  "render_all render [] = Inr []"
| "render_all render (s # ss) =
     (case render s of
        Inl e \<Rightarrow> Inl e
      | Inr el \<Rightarrow> (case render_all render ss of Inl e \<Rightarrow> Inl e | Inr els \<Rightarrow> Inr (el # els)))"

text \<open>
  Modelled from the spec: \<open>syncShapes\<close> of sync.ts is not among the sources. The
  specification has it synchronize the children of a node with the wanted shapes by
  fingerprint: a child whose fingerprint is wanted is kept, the others are removed, and the
  shapes whose fingerprint no child carries are rendered and inserted in the wanted order.
\<close>

definition syncShapes ::
  "syncableShape list \<Rightarrow> elem list \<Rightarrow> (syncableShape \<Rightarrow> error + elem) \<Rightarrow> error + elem list" where
  "syncShapes shs parent render =
     (let wanted = map (\<lambda>sc. Some [Txt (hash sc)]) shs;
          inDom = map (\<lambda>el. getAttribute el ''cgHash'') parent;
          kept = filter (\<lambda>el. getAttribute el ''cgHash'' \<in> set wanted) parent;
          fresh = filter (\<lambda>sc. Some [Txt (hash sc)] \<notin> set inDom) shs
      in map_sum id (\<lambda>new. kept @ new) (render_all render fresh))"

subsection \<open>A render pass\<close>

text \<open>The children of the three nodes that \<open>renderSvg\<close> looks up.\<close>

record scene =
  defsEl :: "elem list"
  shapesEl :: "elem list"
  customSvgsEl :: "elem list"

text \<open>\<open>cur\<close>: the shape being drawn, once the pointer is over a square.\<close>

definition current_shape :: "drawable \<Rightarrow> drawShape option" where
  "current_shape d =
     (case current d of
        None \<Rightarrow> None
      | Some c \<Rightarrow> (case present (mouseSq c) of None \<Rightarrow> None | Some q \<Rightarrow> Some (asShape c)))"

definition nonPieceAutoShapes :: "drawable \<Rightarrow> drawShape list" where
  "nonPieceAutoShapes d = filter (\<lambda>autoShape. piece autoShape = None) (autoShapes d)"

definition cur_list :: "drawable \<Rightarrow> drawShape list" where
  "cur_list d = (case current_shape d of None \<Rightarrow> [] | Some c \<Rightarrow> [c])"

definition arrowDests_of :: "drawable \<Rightarrow> arrowDests" where
  "arrowDests_of d = tally Map.empty (shapes d @ nonPieceAutoShapes d @ cur_list d)"

definition pass_shapes :: "(real \<Rightarrow> string) \<Rightarrow> drawable \<Rightarrow> bounds \<Rightarrow> syncableShape list" where
  "pass_shapes ts d bnds =
     map (\<lambda>s. \<lparr> shape = s, isCurrent = False,
                hash = shapeHash ts s (arrowDests_of d) False bnds \<rparr>)
         (shapes d @ nonPieceAutoShapes d)
     @ map (\<lambda>c. \<lparr> shape = c, isCurrent = True,
                  hash = shapeHash ts c (arrowDests_of d) True bnds \<rparr>)
           (cur_list d)"

definition fullHash :: "(real \<Rightarrow> string) \<Rightarrow> drawable \<Rightarrow> bounds \<Rightarrow> string" where
  "fullHash ts d bnds = join '';'' (map hash (pass_shapes ts d bnds))"

definition is_custom :: "syncableShape \<Rightarrow> bool" where
  "is_custom sc = (present (customSvg (shape sc)) \<noteq> None)"

text \<open>
  \<open>renderSvg\<close>, on the state and the scene. An exception ends the pass; the model does
  not describe the state it leaves behind.
\<close>

definition renderSvg ::
  "(real \<Rightarrow> string) \<Rightarrow> (string \<Rightarrow> pos) \<Rightarrow> state \<times> scene \<Rightarrow> error + state \<times> scene" where
  "renderSvg ts k2p ss =
     (let st = fst ss;
          sc = snd ss;
          d = drawable st;
          ad = arrowDests_of d;
          bnds = dom_bounds st;
          shs = pass_shapes ts d bnds;
          full = fullHash ts d bnds
      in if full = prevSvgHash d then Inr (st, sc)
         else
          (let st1 = st\<lparr> drawable := d\<lparr> prevSvgHash := full \<rparr> \<rparr>
           in case syncDefs ts d shs (defsEl sc) of
                Inl e \<Rightarrow> Inl e
              | Inr pool \<Rightarrow>
                 (case syncShapes (filter (\<lambda>s. \<not> is_custom s) shs) (shapesEl sc)
                         (\<lambda>s. renderShape ts k2p st1 s (brushes d) ad bnds) of
                    Inl e \<Rightarrow> Inl e
                  | Inr layer \<Rightarrow>
                     (case syncShapes (filter is_custom shs) (customSvgsEl sc)
                             (\<lambda>s. renderShape ts k2p st1 s (brushes d) ad bnds) of
                        Inl e \<Rightarrow> Inl e
                      | Inr customLayer \<Rightarrow>
                         Inr (st1, \<lparr> defsEl = pool, shapesEl = layer,
                                     customSvgsEl = customLayer \<rparr>)))))"

subsection \<open>Notions used by the statements, and example data\<close>

text \<open>The text that an override of the line width adds to a brush key.\<close>

definition override_text :: "(real \<Rightarrow> string) \<Rightarrow> drawModifiers \<Rightarrow> string" where
  "override_text ts m =
     (case mLineWidth m of None \<Rightarrow> [] | Some w \<Rightarrow> if w \<noteq> 0 then ts w else [])"

definition red :: drawBrush where
  "red = \<lparr> key = ''red'', color = ''#882020'', opacity = 0.84, lineWidth = 10 \<rparr>"

definition arrow_to :: "string \<Rightarrow> string \<Rightarrow> drawShape" where
  "arrow_to a b = \<lparr> orig = a, dest = Some b, brush = ''green'', piece = None,
                    modifiers = None, customSvg = None \<rparr>"

definition green :: drawBrush where
  "green = \<lparr> key = ''g'', color = ''#15781B'', opacity = 1, lineWidth = 10 \<rparr>"

definition drawable_of :: "drawShape list \<Rightarrow> drawShape list \<Rightarrow> drawCurrent option \<Rightarrow> drawable" where
  "drawable_of ss as c =
     \<lparr> shapes = ss, autoShapes = as, current = c,
       brushes = [''green'' \<mapsto> green, ''red'' \<mapsto> red],
       prevSvgHash = [] \<rparr>"

text \<open>A drawable with the auto shapes that carry a piece taken out.\<close>

definition without_piece_autos :: "drawable \<Rightarrow> drawable" where
  "without_piece_autos d = d\<lparr> autoShapes := filter (\<lambda>a. piece a = None) (autoShapes d) \<rparr>"

definition board :: bounds where "board = \<lparr> width = 512, height = 512 \<rparr>"

text \<open>A \<open>key2pos\<close> for the examples: file letter and rank digit, counted from 0.\<close>

definition square_pos :: "string \<Rightarrow> pos" where
  "square_pos k =
     (case k of f # r # _ \<Rightarrow> (int (of_char f) - 97, int (of_char r) - 49) | _ \<Rightarrow> (0, 0))"

definition empty_scene :: scene where
  "empty_scene = \<lparr> defsEl = [], shapesEl = [], customSvgsEl = [] \<rparr>"

definition one_arrow :: state where
  "one_arrow = \<lparr> drawable = drawable_of [arrow_to ''a1'' ''h8''] [] None,
                 orientation = White, dom_bounds = board \<rparr>"

text \<open>
  The entries of a fingerprint, as the specification lists them: the texts that survive
  the filter, group by group. A group is empty when its entry is falsy or absent.
\<close>

definition entry_part :: "(real \<Rightarrow> string) \<Rightarrow> jsval \<Rightarrow> string list" where
  "entry_part ts v = (if truthy v then [to_text ts v] else [])"

definition num_part :: "(real \<Rightarrow> string) \<Rightarrow> real \<Rightarrow> string list" where
  "num_part ts x = (if x \<noteq> 0 then [ts x] else [])"

definition str_part :: "string \<Rightarrow> string list" where
  "str_part s = (if s \<noteq> [] then [s] else [])"

definition flag_part :: "bool \<Rightarrow> string list" where
  "flag_part b = (if b then [''true''] else [])"

definition bounds_part :: "(real \<Rightarrow> string) \<Rightarrow> bounds \<Rightarrow> string list" where
  "bounds_part ts b = num_part ts (width b) @ num_part ts (height b)"

definition dest_part :: "string option \<Rightarrow> string list" where
  "dest_part d = (case d of None \<Rightarrow> [] | Some k \<Rightarrow> str_part k)"

definition shared_part :: "arrowDests \<Rightarrow> string option \<Rightarrow> string list" where
  "shared_part ad d = (case present d of None \<Rightarrow> [] | Some k \<Rightarrow> flag_part (1 < dest_count ad k))"

text \<open>
  The entries of the sub-hashes: the color, the role and the non-zero scale of a piece; the
  non-zero line width and the hilite flag of the modifiers. The sub-hash of a custom
  content is the tag \<open>custom-\<close> and the digits of its rolling hash.
\<close>

definition piece_entries :: "(real \<Rightarrow> string) \<Rightarrow> drawShapePiece \<Rightarrow> string list" where
  "piece_entries ts q =
     [color_text (pcolor q)] @ str_part (role q)
     @ (case scale q of None \<Rightarrow> [] | Some x \<Rightarrow> num_part ts x)"

definition modifiers_entries :: "(real \<Rightarrow> string) \<Rightarrow> drawModifiers option \<Rightarrow> string list" where
  "modifiers_entries ts m =
     (case m of
        None \<Rightarrow> []
      | Some n \<Rightarrow>
          (case mLineWidth n of None \<Rightarrow> [] | Some w \<Rightarrow> num_part ts w)
          @ flag_part (hilite n = Some True))"

definition piece_part :: "(real \<Rightarrow> string) \<Rightarrow> drawShapePiece option \<Rightarrow> string list" where
  "piece_part ts p =
     (case p of None \<Rightarrow> [] | Some q \<Rightarrow> str_part (join '','' (piece_entries ts q)))"

definition modifiers_part :: "(real \<Rightarrow> string) \<Rightarrow> drawModifiers option \<Rightarrow> string list" where
  "modifiers_part ts m = str_part (join '','' (modifiers_entries ts m))"

definition custom_part :: "js_string option \<Rightarrow> string list" where
  "custom_part c =
     (case present c of None \<Rightarrow> [] | Some x \<Rightarrow> [''custom-'' @ dec_nat (nat (rolling31 0 x))])"

definition hash_parts ::
  "(real \<Rightarrow> string) \<Rightarrow> drawShape \<Rightarrow> arrowDests \<Rightarrow> bool \<Rightarrow> bounds \<Rightarrow> string list" where
  "hash_parts ts s ad cur b =
     bounds_part ts b @ flag_part cur @ str_part (orig s) @ dest_part (dest s)
     @ str_part (brush s) @ shared_part ad (dest s) @ piece_part ts (piece s)
     @ modifiers_part ts (modifiers s) @ custom_part (customSvg s)"

text \<open>A list of texts none of which is empty.\<close>

definition solid :: "string list \<Rightarrow> bool" where
  "solid xs = ([] \<notin> set xs)"

text \<open>A list of texts none of which is empty or holds a comma.\<close>

definition plain :: "string list \<Rightarrow> bool" where
  "plain xs = list_all (\<lambda>x. x \<noteq> [] \<and> CHR '','' \<notin> set x) xs"

text \<open>
  The brush keys that a pass needs: for each shape with a destination, \<open>hilite\<close> when
  the shape asks for it, and the key of its brush.
\<close>

definition shape_keys :: "(real \<Rightarrow> string) \<Rightarrow> drawable \<Rightarrow> syncableShape \<Rightarrow> string list" where
  "shape_keys ts d sc =
     (case present (dest (shape sc)) of
        None \<Rightarrow> []
      | Some k \<Rightarrow>
          (if wants_hilite (shape sc) then [''hilite''] else [])
          @ (case resolve_brush ts (brushes d) (shape sc) of None \<Rightarrow> [] | Some b \<Rightarrow> [key b]))"

definition needed_keys :: "(real \<Rightarrow> string) \<Rightarrow> drawable \<Rightarrow> syncableShape list \<Rightarrow> string list" where
  "needed_keys ts d shs = concat (map (shape_keys ts d) shs)"

text \<open>The two elements that the pool gets for a brush.\<close>

definition def_pair :: "drawBrush \<Rightarrow> elem list" where
  "def_pair b = [renderMarker b, renderLinearOpacityGradient b]"

text \<open>Every brush of the list is filed under its own key.\<close>

definition keyed :: "(string \<times> drawBrush) list \<Rightarrow> bool" where
  "keyed ps = list_all (\<lambda>p. key (snd p) = fst p) ps"

definition two_green :: drawable where
  "two_green = drawable_of [arrow_to ''a1'' ''h8'', arrow_to ''b1'' ''c3''] [] None"

definition hilite_square :: drawShape where
  "hilite_square = \<lparr> orig = ''e4'', dest = None, brush = ''green'', piece = None,
      modifiers = Some \<lparr> mLineWidth = None, hilite = Some True \<rparr>, customSvg = None \<rparr>"

definition hilite_arrow :: drawShape where
  "hilite_arrow = \<lparr> orig = ''e2'', dest = Some ''e4'', brush = ''green'', piece = None,
      modifiers = Some \<lparr> mLineWidth = None, hilite = Some True \<rparr>, customSvg = None \<rparr>"

text \<open>The rolling hash of a custom content that is there and not empty.\<close>

definition custom_hash :: "js_string option \<Rightarrow> int option" where
  "custom_hash c = map_option (rolling31 0) (present c)"

definition custom_at :: "string \<Rightarrow> js_string \<Rightarrow> drawShape" where
  "custom_at k content = \<lparr> orig = k, dest = None, brush = [], piece = None, modifiers = None,
                            customSvg = Some content \<rparr>"

text \<open>
  What the statements read off a rendered element. The elements of a tree that have a
  given tag, the root included, in document order.
\<close>

fun tagged :: "string \<Rightarrow> elem \<Rightarrow> elem list" where
  "tagged t (Elem u as cs) = (if u = t then [Elem u as cs] else []) @ concat (map (tagged t) cs)"
| "tagged t (Markup m) = []"

text \<open>
  An arrow between two positions of the board, drawn with margin \<open>M\<close>: its shaft is as
  long as the distance between the two points less the margin, and its line ends the
  margin short of the destination, on the segment from the origin. When the two points
  coincide the direction is that of the first axis. Where the coordinates are not finite
  numbers, neither are these.
\<close>

definition shaft_length :: "pos \<Rightarrow> pos \<Rightarrow> bounds \<Rightarrow> real \<Rightarrow> real option" where
  "shaft_length og ds bnds M =
     (case (pos2user og bnds, pos2user ds bnds) of
        (Some a, Some c) \<Rightarrow> Some (sqrt ((fst c - fst a)\<^sup>2 + (snd c - snd a)\<^sup>2) - M)
      | _ \<Rightarrow> None)"

definition shaft_end :: "pos \<Rightarrow> pos \<Rightarrow> bounds \<Rightarrow> real \<Rightarrow> (real \<times> real) option" where
  "shaft_end og ds bnds M =
     (case (pos2user og bnds, pos2user ds bnds) of
        (Some a, Some c) \<Rightarrow>
          (let dx = fst c - fst a; dy = snd c - snd a; l = sqrt (dx\<^sup>2 + dy\<^sup>2)
           in if l = 0 then Some (fst c - M, snd c)
              else Some (fst c - M * dx / l, snd c - M * dy / l))
      | _ \<Rightarrow> None)"

text \<open>
  An element shows such an arrow \<open>n\<close> times over: it has \<open>n\<close> rectangles, each with
  that width, and \<open>n\<close> lines, each with that end.
\<close>

definition drawn_with_margin :: "elem \<Rightarrow> pos \<Rightarrow> pos \<Rightarrow> bounds \<Rightarrow> nat \<Rightarrow> real \<Rightarrow> bool" where
  "drawn_with_margin e og ds bnds n M =
     (map (\<lambda>r. getAttribute r ''width'') (tagged ''rect'' e)
        = replicate n (Some [num_frag (shaft_length og ds bnds M)])
      \<and> map (\<lambda>l. (getAttribute l ''x2'', getAttribute l ''y2'')) (tagged ''line'' e)
        = replicate n (Some [num_frag (map_option fst (shaft_end og ds bnds M))],
                       Some [num_frag (map_option snd (shaft_end og ds bnds M))]))"

text \<open>
  An element is the square highlight of a brush at a position: a single rectangle of
  side 1 centred on the position, outlined in the color of the brush with stroke width
  4/64, not filled, and no line.
\<close>

definition square_drawn :: "elem \<Rightarrow> drawBrush \<Rightarrow> pos \<Rightarrow> bool \<Rightarrow> bounds \<Rightarrow> bool" where
  "square_drawn e b p cur bnds =
     (tagged ''rect'' e = [e] \<and> tagged ''line'' e = []
      \<and> getAttribute e ''stroke'' = Some [Txt (color b)]
      \<and> getAttribute e ''stroke-width'' = Some [Num (4 / 64)]
      \<and> getAttribute e ''fill'' = Some [Txt ''none'']
      \<and> getAttribute e ''opacity'' = Some [Num (opacity_of b cur)]
      \<and> getAttribute e ''width'' = Some [Num 1]
      \<and> getAttribute e ''height'' = Some [Num 1]
      \<and> getAttribute e ''x'' = Some [num_frag (map_option (\<lambda>q. fst q - 1 / 2) (pos2user p bnds))]
      \<and> getAttribute e ''y'' = Some [num_frag (map_option (\<lambda>q. snd q - 1 / 2) (pos2user p bnds))])"

text \<open>
  The shapes of a pass with their live flags, as the specification lists them: the
  persisted shapes and the auto shapes without a piece, not live, then the shape being
  drawn, live. The number of shapes of the pass that have a square as their destination.
\<close>

definition pass_list :: "drawable \<Rightarrow> (drawShape \<times> bool) list" where
  "pass_list d =
     map (\<lambda>s. (s, False)) (shapes d @ filter (\<lambda>a. piece a = None) (autoShapes d))
     @ map (\<lambda>c. (c, True)) (cur_list d)"

definition sharing :: "drawable \<Rightarrow> string \<Rightarrow> nat" where
  "sharing d k = length (filter (\<lambda>p. dest (fst p) = Some k) (pass_list d))"

text \<open>
  A shape that is drawn as an arrow has no custom content and a destination that is
  neither empty nor its origin. A shape that is drawn as a square has no custom content
  and no destination, or its origin as its destination; in the latter case it is
  degenerate.
\<close>

definition is_arrow :: "drawShape \<Rightarrow> bool" where
  "is_arrow s =
     (present (customSvg s) = None
      \<and> (case dest s of None \<Rightarrow> False | Some k \<Rightarrow> k \<noteq> [] \<and> k \<noteq> orig s))"

definition is_square :: "drawShape \<Rightarrow> bool" where
  "is_square s =
     (present (customSvg s) = None \<and> (present (dest s) = None \<or> dest s = Some (orig s)))"

definition degenerate :: "drawShape \<Rightarrow> bool" where
  "degenerate s = (present (customSvg s) = None \<and> dest s = Some (orig s))"

text \<open>
  The margin that the merge rule gives a shape: 20/64 when more than one shape of the
  pass has its destination and the shape is not live, 10/64 otherwise.
\<close>

definition merge_margin :: "drawable \<Rightarrow> drawShape \<Rightarrow> bool \<Rightarrow> real" where
  "merge_margin d s live =
     (case dest s of
        None \<Rightarrow> 10 / 64
      | Some k \<Rightarrow> if 1 < sharing d k \<and> \<not> live then 20 / 64 else 10 / 64)"

text \<open>
  An element shows the arrow of a shape with margin \<open>M\<close>, on the board as the state
  orients it and in the bounds of the state; twice over when the shape asks for the hilite.
\<close>

definition arrow_drawn :: "(string \<Rightarrow> pos) \<Rightarrow> state \<Rightarrow> drawShape \<Rightarrow> elem \<Rightarrow> real \<Rightarrow> bool" where
  "arrow_drawn k2p st s e M =
     (case dest s of
        None \<Rightarrow> False
      | Some k \<Rightarrow>
          drawn_with_margin e (orient (k2p (orig s)) (orientation st))
            (orient (k2p k) (orientation st)) (dom_bounds st)
            (if wants_hilite s then 2 else 1) M)"

text \<open>
  The shapes that a pass renders into the layer of shapes: those without custom content
  whose fingerprint no child of the layer carries.
\<close>

definition fresh_shapes :: "(real \<Rightarrow> string) \<Rightarrow> state \<Rightarrow> elem list \<Rightarrow> syncableShape list" where
  "fresh_shapes ts st layer =
     filter (\<lambda>sh. present (customSvg (shape sh)) = None
                \<and> Some [Txt (hash sh)] \<notin> set (map (\<lambda>el. getAttribute el ''cgHash'') layer))
       (pass_shapes ts (drawable st) (dom_bounds st))"

text \<open>
  Example states: three arrows to e4; two arrows to e4 and a third being drawn; an arrow
  to e4 and a shape from e4 to e4.
\<close>

definition merge_state :: state where
  "merge_state =
     \<lparr> drawable = drawable_of
         [arrow_to ''a1'' ''e4'', arrow_to ''e1'' ''e4'', arrow_to ''e8'' ''e4''] [] None,
       orientation = White, dom_bounds = board \<rparr>"

definition live_state :: state where
  "live_state =
     \<lparr> drawable = drawable_of [arrow_to ''a1'' ''e4'', arrow_to ''e1'' ''e4''] []
         (Some \<lparr> asShape = arrow_to ''e8'' ''e4'', mouseSq = Some ''e4'' \<rparr>),
       orientation = White, dom_bounds = board \<rparr>"

definition degenerate_state :: state where
  "degenerate_state =
     \<lparr> drawable = drawable_of [arrow_to ''a1'' ''e4'', arrow_to ''e4'' ''e4''] [] None,
       orientation = White, dom_bounds = board \<rparr>"


section \<open>Properties\<close>

lemma uint_shl5: "shl5 h mod 2 ^ 32 = (32 * h) mod 2 ^ 32"
proof -
  have "shl5 h mod 2 ^ 32 = uint (push_bit 5 (word_of_int h :: 32 word))"
    unfolding shl5_def by (simp add: uint_sint take_bit_eq_mod)
  also have "\<dots> = (32 * h) mod 2 ^ 32"
    by (simp add: uint_word_of_int push_bit_eq_mult take_bit_eq_mod mult.commute uint_word_ariths
        mod_mult_right_eq)
  finally show ?thesis .
qed

lemma hash_round_31: "hash_round h c = (31 * h + uint c) mod 2 ^ 32"
proof -
  have "(shl5 h - h + uint c) mod 2 ^ 32 = (shl5 h mod 2 ^ 32 - h + uint c) mod 2 ^ 32"
    by (metis mod_add_left_eq mod_diff_left_eq)
  also have "\<dots> = ((32 * h) mod 2 ^ 32 - h + uint c) mod 2 ^ 32"
    by (simp only: uint_shl5)
  also have "\<dots> = (32 * h - h + uint c) mod 2 ^ 32"
    by (metis mod_add_left_eq mod_diff_left_eq)
  finally show ?thesis by (simp add: hash_round_def)
qed

lemma hash_loop_rolling31: "hash_loop h s = rolling31 h s"
  by (induction s arbitrary: h) (simp_all add: hash_round_31)

text \<open>
  C6. For every content string the custom sub-hash is the tag \<open>custom-\<close> followed by the
  decimal digits of the multiplier-31 rolling hash of its character codes, started at 0
  and reduced modulo \<open>2^32\<close> in every round: the shift-and-subtract round of the code
  computes \<open>(31 * h + c) mod 2^32\<close>.
\<close>

theorem customSvgHash_rolling31:
  "customSvgHash s = ''custom-'' @ dec_nat (nat (rolling31 0 s))
   \<and> hash_round h c = (31 * h + uint c) mod 2 ^ 32
   \<and> 0 \<le> rolling31 0 s \<and> rolling31 0 s < 2 ^ 32"
proof -
  have range: "0 \<le> h \<and> h < 2 ^ 32 \<Longrightarrow> 0 \<le> rolling31 h t \<and> rolling31 h t < 2 ^ 32" for h t
    by (induction t arbitrary: h) simp_all
  show ?thesis
    using range [of 0 s] by (simp add: customSvgHash_def hash_loop_rolling31 hash_round_31)
qed

subsection \<open>Orientation\<close>

text \<open>
  C8. White orientation leaves a grid position unchanged and black orientation mirrors both
  axes, \<open>(x, y) \<mapsto> (7 - x, 7 - y)\<close>, before the conversion to user space; for equal
  bounds, square \<open>(0, 0)\<close> under black orientation gets the user-space coordinates of
  square \<open>(7, 7)\<close> under white orientation.
\<close>

theorem orient_mirrors_axes:
  "orient p White = p
   \<and> orient (x, y) Black = (7 - x, 7 - y)
   \<and> pos2user (orient p Black) b = pos2user (7 - fst p, 7 - snd p) b
   \<and> pos2user (orient (0, 0) Black) b = pos2user (orient (7, 7) White) b"
  by (simp add: orient_def)

theorem orient_mirrors_axes_witness:
  "orient (0, 0) Black = (7, 7)
   \<and> pos2user (orient (0, 0) Black) \<lparr> width = 512, height = 512 \<rparr> = Some (3.5, - 3.5)
   \<and> pos2user (orient (7, 7) White) \<lparr> width = 512, height = 512 \<rparr> = Some (3.5, - 3.5)"
  using orient_mirrors_axes [of "(7, 7)" 0 0 "\<lparr> width = 512, height = 512 \<rparr>"]
  by (simp add: pos2user_def min1_ratio_def)

subsection \<open>Custom brushes\<close>

lemma round_near: "\<bar>of_int (round x) - x\<bar> \<le> (1 / 2 :: real)"
  by (rule of_int_round_abs_le)

lemma key_makeCustomBrush: "key (makeCustomBrush ts base m) = key base @ override_text ts m"
  by (simp add: makeCustomBrush_def filter_join_def opt_num_def override_text_def
      split: option.splits)

text \<open>
  C3, as the code has it. The claim takes the override width whenever it is present. The
  code takes it with \<open>||\<close> and drops it from the key with \<open>filter\<close>, so an override
  of 0 counts as no override: the base width is used and the key gets no suffix.
\<close>

theorem makeCustomBrush_zero_override:
  "lineWidth (makeCustomBrush int_text red \<lparr> mLineWidth = Some 0, hilite = None \<rparr>) = 10
   \<and> of_int (round (0 :: real)) \<noteq> (10 :: real)
   \<and> key (makeCustomBrush int_text red \<lparr> mLineWidth = Some 0, hilite = None \<rparr>) = ''red''
   \<and> key red @ int_text 0 = ''red0''"
  by (simp add: makeCustomBrush_def red_def js_or_num_def filter_join_def opt_num_def
      int_text_def dec_nat.simps digit_def)

text \<open>
  C3, amended. The derived brush keeps the base color; its opacity is the base opacity
  rounded to one decimal; its line width is the override width when that is present and
  not zero, and the base width otherwise, rounded to the nearest integer; its key is the
  base key followed by the text of the override width when that is present and not zero,
  and by nothing otherwise. So two derived keys over one base brush are equal exactly
  when the texts of their overrides are.
\<close>

theorem makeCustomBrush_derived:
  "color (makeCustomBrush ts base m) = color base
   \<and> opacity (makeCustomBrush ts base m) = of_int \<lfloor>opacity base * 10 + 1 / 2\<rfloor> / 10
   \<and> \<bar>opacity (makeCustomBrush ts base m) - opacity base\<bar> \<le> 1 / 20
   \<and> lineWidth (makeCustomBrush ts base m) =
       of_int \<lfloor>(case mLineWidth m of None \<Rightarrow> lineWidth base
                  | Some w \<Rightarrow> if w \<noteq> 0 then w else lineWidth base) + 1 / 2\<rfloor>
   \<and> \<bar>lineWidth (makeCustomBrush ts base m)
        - (case mLineWidth m of None \<Rightarrow> lineWidth base
           | Some w \<Rightarrow> if w \<noteq> 0 then w else lineWidth base)\<bar> \<le> 1 / 2
   \<and> key (makeCustomBrush ts base m) = key base @ override_text ts m
   \<and> (key (makeCustomBrush ts base m) = key (makeCustomBrush ts base m')
        \<longleftrightarrow> override_text ts m = override_text ts m')"
proof -
  have op: "\<bar>of_int (round (opacity base * 10)) / 10 - opacity base\<bar> \<le> 1 / 20"
    using round_near [of "opacity base * 10"] by (simp add: field_simps)
  have lw: "js_or_num (mLineWidth m) (lineWidth base) =
      (case mLineWidth m of None \<Rightarrow> lineWidth base
       | Some w \<Rightarrow> if w \<noteq> 0 then w else lineWidth base)"
    by (simp add: js_or_num_def)
  show ?thesis
    using op round_near [of "js_or_num (mLineWidth m) (lineWidth base)"]
    by (simp add: key_makeCustomBrush lw [symmetric])
       (simp add: makeCustomBrush_def round_def)
qed

theorem makeCustomBrush_derived_witness:
  "key (makeCustomBrush int_text red \<lparr> mLineWidth = Some 6, hilite = None \<rparr>) = ''red6''
   \<and> key (makeCustomBrush int_text red \<lparr> mLineWidth = Some 6, hilite = Some True \<rparr>) = ''red6''
   \<and> key (makeCustomBrush int_text red \<lparr> mLineWidth = Some 8, hilite = None \<rparr>) = ''red8''
   \<and> opacity (makeCustomBrush int_text red \<lparr> mLineWidth = Some 6, hilite = None \<rparr>) = 0.8
   \<and> lineWidth (makeCustomBrush int_text red \<lparr> mLineWidth = Some 6, hilite = None \<rparr>) = 6"
  using makeCustomBrush_derived [of int_text red "\<lparr> mLineWidth = Some 6, hilite = None \<rparr>"
      "\<lparr> mLineWidth = Some 6, hilite = Some True \<rparr>"]
    makeCustomBrush_derived [of int_text red "\<lparr> mLineWidth = Some 8, hilite = None \<rparr>"
      "\<lparr> mLineWidth = Some 8, hilite = None \<rparr>"]
  by (simp add: red_def override_text_def int_text_def dec_nat.simps digit_def
      makeCustomBrush_def filter_join_def opt_num_def js_or_num_def round_def)

subsection \<open>The tally of a pass\<close>

lemma present_eq_Some: "(present x = Some k) = (x = Some k \<and> k \<noteq> [])"
  by (auto simp: present_def split: option.splits)

lemma dest_count_count_dest:
  "dest_count (count_dest ad s) k = dest_count ad k + (if present (dest s) = Some k then 1 else 0)"
  by (auto simp: count_dest_def dest_count_def split: option.splits)

lemma dest_count_tally:
  "dest_count (tally ad xs) k =
     dest_count ad k + length (filter (\<lambda>s. present (dest s) = Some k) xs)"
  by (induction xs arbitrary: ad) (simp_all add: dest_count_count_dest)

lemma dest_count_arrowDests_of:
  "k \<noteq> [] \<Longrightarrow> dest_count (arrowDests_of d) k =
     length (filter (\<lambda>s. dest s = Some k) (shapes d @ nonPieceAutoShapes d @ cur_list d))"
proof -
  have "dest_count Map.empty k = 0" by (simp add: dest_count_def)
  then show ?thesis if "k \<noteq> []"
    using that by (simp add: arrowDests_of_def dest_count_tally present_eq_Some)
qed

subsection \<open>The shapes of a pass\<close>

lemma nonPiece_without [simp]:
  "nonPieceAutoShapes (without_piece_autos d) = nonPieceAutoShapes d"
  by (simp add: nonPieceAutoShapes_def without_piece_autos_def)

lemma without_fields [simp]:
  "shapes (without_piece_autos d) = shapes d"
  "current (without_piece_autos d) = current d"
  "brushes (without_piece_autos d) = brushes d"
  "prevSvgHash (without_piece_autos d) = prevSvgHash d"
  by (simp_all add: without_piece_autos_def)

lemma cur_list_without [simp]: "cur_list (without_piece_autos d) = cur_list d"
  by (simp add: cur_list_def current_shape_def)

lemma arrowDests_without [simp]: "arrowDests_of (without_piece_autos d) = arrowDests_of d"
  by (simp add: arrowDests_of_def)

lemma pass_shapes_without [simp]: "pass_shapes ts (without_piece_autos d) b = pass_shapes ts d b"
  by (simp add: pass_shapes_def)

lemma collect_brushes_cong:
  "brushes d' = brushes d \<Longrightarrow> collect_brushes ts d' acc shs = collect_brushes ts d acc shs"
  by (induction shs arbitrary: acc) (simp_all split: option.splits)

lemma syncDefs_cong: "brushes d' = brushes d \<Longrightarrow> syncDefs ts d' shs pool = syncDefs ts d shs pool"
  by (simp add: syncDefs_def collect_brushes_cong [of d' d])

lemma renderShape_state:
  "orientation st' = orientation st \<Longrightarrow>
   renderShape ts k2p st' sc brs ad b = renderShape ts k2p st sc brs ad b"
  by (simp add: renderShape_def Let_def split: option.splits)

lemma map_shape_pass_shapes:
  "map shape (pass_shapes ts d b) = shapes d @ nonPieceAutoShapes d @ cur_list d"
  by (simp add: pass_shapes_def comp_def)

text \<open>
  C9. An auto shape that carries a piece is left out of the whole pass: the shapes of the
  pass are the persisted shapes, the auto shapes without a piece and the live shape, the
  tally counts exactly these, and taking the auto shapes with a piece out of the state
  changes neither the tally, nor the shapes of the pass with their fingerprints, nor the
  aggregate fingerprint, nor the scene that \<open>renderSvg\<close> produces.
\<close>

theorem piece_auto_shapes_excluded:
  "map shape (pass_shapes ts d b) =
     shapes d @ filter (\<lambda>a. piece a = None) (autoShapes d) @ cur_list d
   \<and> arrowDests_of d =
       tally Map.empty (shapes d @ filter (\<lambda>a. piece a = None) (autoShapes d) @ cur_list d)
   \<and> arrowDests_of (without_piece_autos d) = arrowDests_of d
   \<and> pass_shapes ts (without_piece_autos d) b = pass_shapes ts d b
   \<and> fullHash ts (without_piece_autos d) b = fullHash ts d b
   \<and> map_sum id snd (renderSvg ts k2p (st\<lparr> drawable := without_piece_autos (drawable st) \<rparr>, sc))
       = map_sum id snd (renderSvg ts k2p (st, sc))"
proof -
  have "map_sum id snd (renderSvg ts k2p (st\<lparr> drawable := without_piece_autos (drawable st) \<rparr>, sc))
       = map_sum id snd (renderSvg ts k2p (st, sc))"
    by (simp add: renderSvg_def Let_def fullHash_def
        syncDefs_cong [of "without_piece_autos (drawable st)" "drawable st"]
        renderShape_state [of "st\<lparr>drawable := without_piece_autos (drawable st)\<lparr>prevSvgHash := h\<rparr>\<rparr>"
           "st\<lparr>drawable := drawable st\<lparr>prevSvgHash := h\<rparr>\<rparr>" for h]
        split: sum.splits)
  then show ?thesis
    by (simp add: map_shape_pass_shapes fullHash_def)
       (simp add: arrowDests_of_def nonPieceAutoShapes_def)
qed

theorem piece_auto_shapes_excluded_witness:
  "map shape (pass_shapes int_text
      (drawable_of [arrow_to ''a1'' ''h8'']
         [arrow_to ''b1'' ''c3'',
          (arrow_to ''e2'' ''e4'')\<lparr> piece := Some \<lparr> role = ''pawn'', pcolor = White, scale = None \<rparr> \<rparr>]
         None) board)
    = [arrow_to ''a1'' ''h8'', arrow_to ''b1'' ''c3'']
   \<and> dest_count (arrowDests_of (drawable_of [arrow_to ''a1'' ''h8'']
         [arrow_to ''b1'' ''c3'',
          (arrow_to ''e2'' ''e4'')\<lparr> piece := Some \<lparr> role = ''pawn'', pcolor = White, scale = None \<rparr> \<rparr>]
         None)) ''e4'' = 0"
proof -
  note t = piece_auto_shapes_excluded [of int_text "drawable_of [arrow_to ''a1'' ''h8'']
         [arrow_to ''b1'' ''c3'',
          (arrow_to ''e2'' ''e4'')\<lparr> piece := Some \<lparr> role = ''pawn'', pcolor = White, scale = None \<rparr> \<rparr>]
         None" board square_pos one_arrow empty_scene]
  show ?thesis
    unfolding t [THEN conjunct1] t [THEN conjunct2, THEN conjunct1]
    by (simp add: drawable_of_def arrow_to_def cur_list_def current_shape_def count_dest_def
        present_def dest_count_def)
qed

subsection \<open>The aggregate fingerprint\<close>

lemma fullHash_prev [simp]: "fullHash ts (d\<lparr> prevSvgHash := h \<rparr>) b = fullHash ts d b"
  by (simp add: fullHash_def pass_shapes_def arrowDests_of_def nonPieceAutoShapes_def
      cur_list_def current_shape_def)

text \<open>
  C2. The aggregate fingerprint is the fingerprints of the shapes of the pass joined with
  \<open>;\<close> in list order. When it equals the stored one, \<open>renderSvg\<close> returns the state
  and the scene as they are, the stored fingerprint included. So a second call on the
  result of a call, with the shapes, the live shape, the orientation and the bounds
  unchanged, changes nothing.
\<close>

theorem renderSvg_unchanged_hash:
  "fullHash ts d b = join '';'' (map hash (pass_shapes ts d b))
   \<and> (fullHash ts (drawable st) (dom_bounds st) = prevSvgHash (drawable st) \<longrightarrow>
        renderSvg ts k2p (st, sc) = Inr (st, sc))
   \<and> (renderSvg ts k2p (st, sc) = Inr (st', sc') \<longrightarrow>
        renderSvg ts k2p (st', sc') = Inr (st', sc'))"
proof -
  have early: "renderSvg ts k2p (s, c) = Inr (s, c)"
    if "fullHash ts (drawable s) (dom_bounds s) = prevSvgHash (drawable s)" for s c
    using that by (simp add: renderSvg_def Let_def)
  have after: "fullHash ts (drawable st') (dom_bounds st') = prevSvgHash (drawable st')"
    if "renderSvg ts k2p (st, sc) = Inr (st', sc')"
    using that by (auto simp: renderSvg_def Let_def split: if_splits sum.splits)
  show ?thesis
    using early after by (auto simp: fullHash_def)
qed

lemma one_arrow_hash: "fullHash int_text (drawable one_arrow) (dom_bounds one_arrow) = ''512,512,a1,h8,green''"
    by (simp add: one_arrow_def fullHash_def pass_shapes_def drawable_of_def arrow_to_def nonPieceAutoShapes_def
        cur_list_def current_shape_def shapeHash_def hash_entries_def filter_join_def board_def
        int_text_def dec_nat.simps digit_def opt_str_def arrowDests_of_def count_dest_def
        present_def dest_count_def)

lemma one_arrow_renders:
  "\<not> isl (renderSvg int_text square_pos (one_arrow, empty_scene))"
  apply (simp add: renderSvg_def Let_def one_arrow_hash)
  apply (simp add: one_arrow_def drawable_of_def empty_scene_def pass_shapes_def nonPieceAutoShapes_def
      cur_list_def current_shape_def arrow_to_def is_custom_def present_def syncDefs_def
      resolve_brush_def wants_hilite_def keysInDom_def syncShapes_def renderShape_def Let_def)
  done

theorem renderSvg_unchanged_hash_witness:
  "renderSvg int_text square_pos
     (one_arrow\<lparr> drawable := (drawable one_arrow)\<lparr> prevSvgHash := ''512,512,a1,h8,green'' \<rparr> \<rparr>,
      \<lparr> defsEl = [renderMarker green, renderLinearOpacityGradient green],
        shapesEl = [], customSvgsEl = [] \<rparr>)
   = Inr (one_arrow\<lparr> drawable := (drawable one_arrow)\<lparr> prevSvgHash := ''512,512,a1,h8,green'' \<rparr> \<rparr>,
      \<lparr> defsEl = [renderMarker green, renderLinearOpacityGradient green],
        shapesEl = [], customSvgsEl = [] \<rparr>)
   \<and> isl (renderSvg int_text square_pos (one_arrow, empty_scene)) = False
   \<and> renderSvg int_text square_pos (projr (renderSvg int_text square_pos (one_arrow, empty_scene)))
       = renderSvg int_text square_pos (one_arrow, empty_scene)"
proof -
  let ?first = "renderSvg int_text square_pos (one_arrow, empty_scene)"
  have collapse: "Inr (projr ?first) = ?first"
    using one_arrow_renders by (rule sum.collapse(2))
  have r: "?first = Inr (fst (projr ?first), snd (projr ?first))"
    by (simp only: prod.collapse collapse)
  have h: "fullHash int_text
      (drawable (one_arrow\<lparr> drawable := (drawable one_arrow)\<lparr> prevSvgHash := ''512,512,a1,h8,green'' \<rparr> \<rparr>))
      (dom_bounds (one_arrow\<lparr> drawable := (drawable one_arrow)\<lparr> prevSvgHash := ''512,512,a1,h8,green'' \<rparr> \<rparr>))
     = prevSvgHash (drawable (one_arrow\<lparr> drawable := (drawable one_arrow)\<lparr> prevSvgHash := ''512,512,a1,h8,green'' \<rparr> \<rparr>))"
    using one_arrow_hash by simp
  have unchanged: "renderSvg int_text square_pos
     (one_arrow\<lparr> drawable := (drawable one_arrow)\<lparr> prevSvgHash := ''512,512,a1,h8,green'' \<rparr> \<rparr>,
      \<lparr> defsEl = [renderMarker green, renderLinearOpacityGradient green],
        shapesEl = [], customSvgsEl = [] \<rparr>)
   = Inr (one_arrow\<lparr> drawable := (drawable one_arrow)\<lparr> prevSvgHash := ''512,512,a1,h8,green'' \<rparr> \<rparr>,
      \<lparr> defsEl = [renderMarker green, renderLinearOpacityGradient green],
        shapesEl = [], customSvgsEl = [] \<rparr>)"
    by (rule renderSvg_unchanged_hash [THEN conjunct2, THEN conjunct1, rule_format, OF h])
  have "renderSvg int_text square_pos (fst (projr ?first), snd (projr ?first))
      = Inr (fst (projr ?first), snd (projr ?first))"
    by (rule renderSvg_unchanged_hash [THEN conjunct2, THEN conjunct2, rule_format, OF r])
  then have "renderSvg int_text square_pos (projr ?first) = Inr (projr ?first)"
    by (simp only: prod.collapse)
  then have again: "renderSvg int_text square_pos (projr ?first) = ?first"
    by (simp only: collapse)
  have "isl ?first = False"
    using one_arrow_renders by simp
  with unchanged again show ?thesis
    by (intro conjI)
qed

subsection \<open>Fingerprints as joined entries\<close>

lemma filter_map_parts:
  "map (to_text ts) (filter truthy vs) = concat (map (entry_part ts) vs)"
  by (induction vs) (simp_all add: entry_part_def)

lemma filter_join_parts: "filter_join ts sep vs = join sep (concat (map (entry_part ts) vs))"
  by (simp add: filter_join_def filter_map_parts)

lemma entry_part_simps:
  "entry_part ts (JNum x) = num_part ts x"
  "entry_part ts (JBool c) = flag_part c"
  "entry_part ts (JStr t) = str_part t"
  "entry_part ts JUndef = []"
  by (simp_all add: entry_part_def num_part_def flag_part_def str_part_def)

lemma custom_nonempty: "customSvgHash c \<noteq> []"
  by (simp add: customSvgHash_def)

lemma customSvgHash_digits: "customSvgHash c = ''custom-'' @ dec_nat (nat (rolling31 0 c))"
  by (simp add: customSvgHash_def hash_loop_rolling31)

lemma pieceHash_entries: "pieceHash ts q = join '','' (piece_entries ts q)"
proof -
  have "str_part (color_text (pcolor q)) = [color_text (pcolor q)]"
    by (simp add: str_part_def color_text_def split: color.splits)
  moreover have "entry_part ts (opt_num (scale q))
      = (case scale q of None \<Rightarrow> [] | Some x \<Rightarrow> num_part ts x)"
    by (simp add: opt_num_def entry_part_simps split: option.splits)
  ultimately show ?thesis
    by (simp add: pieceHash_def filter_join_parts piece_entries_def entry_part_simps)
qed

lemma modifiersHash_entries: "modifiersHash ts n = join '','' (modifiers_entries ts (Some n))"
proof -
  have "entry_part ts (opt_num (mLineWidth n))
      = (case mLineWidth n of None \<Rightarrow> [] | Some w \<Rightarrow> num_part ts w)"
    by (simp add: opt_num_def entry_part_simps split: option.splits)
  moreover have "entry_part ts (opt_bool (hilite n)) = flag_part (hilite n = Some True)"
    by (auto simp: opt_bool_def entry_part_simps flag_part_def split: option.splits)
  ultimately show ?thesis
    by (simp add: modifiersHash_def filter_join_parts modifiers_entries_def)
qed

lemma shapeHash_parts: "shapeHash ts s ad cur b = join '','' (hash_parts ts s ad cur b)"
proof -
  have d: "entry_part ts (opt_str (dest s)) = dest_part (dest s)"
    by (simp add: opt_str_def dest_part_def entry_part_simps split: option.splits)
  have sh: "entry_part ts (case dest s of None \<Rightarrow> JUndef
        | Some k \<Rightarrow> if k \<noteq> [] then JBool (1 < dest_count ad k) else JStr []) = shared_part ad (dest s)"
    by (simp add: shared_part_def present_def entry_part_simps str_part_def split: option.splits)
  have p: "entry_part ts (case piece s of None \<Rightarrow> JUndef | Some p \<Rightarrow> JStr (pieceHash ts p))
      = piece_part ts (piece s)"
    by (simp add: piece_part_def entry_part_simps pieceHash_entries split: option.splits)
  have m: "entry_part ts (case modifiers s of None \<Rightarrow> JUndef | Some m \<Rightarrow> JStr (modifiersHash ts m))
      = modifiers_part ts (modifiers s)"
  proof (cases "modifiers s")
    case None
    then show ?thesis
      by (simp add: modifiers_part_def entry_part_simps modifiers_entries_def str_part_def)
  next
    case (Some n)
    then show ?thesis
      by (simp add: modifiers_part_def entry_part_simps modifiersHash_entries)
  qed
  have c: "entry_part ts (case customSvg s of None \<Rightarrow> JUndef
        | Some c \<Rightarrow> if c \<noteq> [] then JStr (customSvgHash c) else JStr []) = custom_part (customSvg s)"
    using customSvgHash_digits
    by (auto simp: custom_part_def present_def entry_part_simps str_part_def custom_nonempty
        split: option.splits)
  show ?thesis
    unfolding shapeHash_def filter_join_parts hash_entries_def hash_parts_def bounds_part_def
    by (simp only: list.map concat.simps d sh p m c entry_part_simps append_Nil2 append_assoc)
qed

lemma join_Cons: "join sep (x # xs) = (if xs = [] then x else x @ sep @ join sep xs)"
  by (cases xs) simp_all

lemma join_append:
  "join sep (xs @ ys) =
     (if xs = [] then join sep ys else if ys = [] then join sep xs
      else join sep xs @ sep @ join sep ys)"
  by (induction xs) (auto simp: join_Cons)

lemma join_empty_iff: "solid xs \<Longrightarrow> (join sep xs = []) = (xs = [])"
  by (cases xs) (auto simp: solid_def join_Cons)

lemma join_prefix_cancel:
  assumes "solid xs" "solid ys" "sep \<noteq> []"
  shows "(join sep (pre @ xs) = join sep (pre @ ys)) = (join sep xs = join sep ys)"
proof (cases "pre = []")
  case True
  then show ?thesis by simp
next
  case False
  then show ?thesis
    using assms join_empty_iff [of xs sep] join_empty_iff [of ys sep]
    by (auto simp: join_append)
qed

lemma join_suffix_cancel:
  assumes "solid xs" "solid ys" "sep \<noteq> []"
  shows "(join sep (xs @ post) = join sep (ys @ post)) = (join sep xs = join sep ys)"
proof (cases "post = []")
  case True
  then show ?thesis by simp
next
  case False
  have "join sep post \<noteq> u @ sep @ join sep post" for u
  proof
    assume "join sep post = u @ sep @ join sep post"
    then have "length (join sep post) = length (u @ sep @ join sep post)" by simp
    with assms(3) show False by simp
  qed
  then show ?thesis
    using False assms join_empty_iff [of xs sep] join_empty_iff [of ys sep]
    by (auto simp: join_append)
qed

lemma join_cancel:
  assumes "solid xs" "solid ys" "solid post" "sep \<noteq> []"
  shows "(join sep (pre @ xs @ post) = join sep (pre @ ys @ post)) = (join sep xs = join sep ys)"
proof -
  have "solid (xs @ post)" "solid (ys @ post)"
    using assms by (auto simp: solid_def)
  then show ?thesis
    using assms by (simp add: join_prefix_cancel join_suffix_cancel)
qed

lemma solid_parts [simp]:
  "solid []"
  "solid (str_part t)"
  "solid (flag_part c)"
  "solid (dest_part d)"
  "solid (shared_part ad d)"
  "solid (piece_part ts p)"
  "solid (modifiers_part ts m)"
  "solid (custom_part x)"
  by (simp_all add: solid_def str_part_def flag_part_def dest_part_def shared_part_def
      piece_part_def modifiers_part_def custom_part_def split: option.splits)

lemma solid_append [simp]: "solid (xs @ ys) = (solid xs \<and> solid ys)"
  by (auto simp: solid_def)

lemma hash_shared_differs:
  assumes "present (dest s) = Some k" "(1 < dest_count ad k) \<noteq> (1 < dest_count ad' k)"
  shows "shapeHash ts s ad cur b \<noteq> shapeHash ts s ad' cur b"
proof -
  let ?pre = "bounds_part ts b @ flag_part cur @ str_part (orig s) @ dest_part (dest s)
     @ str_part (brush s)"
  let ?post = "piece_part ts (piece s) @ modifiers_part ts (modifiers s) @ custom_part (customSvg s)"
  have split: "hash_parts ts s a cur b = ?pre @ shared_part a (dest s) @ ?post" for a
    by (simp add: hash_parts_def)
  have "(join '','' (?pre @ shared_part ad (dest s) @ ?post)
       = join '','' (?pre @ shared_part ad' (dest s) @ ?post))
      = (join '','' (shared_part ad (dest s)) = join '','' (shared_part ad' (dest s)))"
    by (rule join_cancel) simp_all
  moreover have "join '','' (shared_part ad (dest s)) \<noteq> join '','' (shared_part ad' (dest s))"
    using assms by (auto simp: shared_part_def flag_part_def)
  ultimately show ?thesis
    by (simp add: shapeHash_parts split)
qed

subsection \<open>The definitions pool is append-only\<close>

lemma set_map_set: "fst ` set (map_set k v ps) = insert k (fst ` set ps)"
  by (induction ps) auto

lemma distinct_map_set: "distinct (map fst ps) \<Longrightarrow> distinct (map fst (map_set k v ps))"
proof (induction ps)
  case Nil
  then show ?case by simp
next
  case (Cons p ps)
  have "fst ` set (map_set k v ps) = insert k (fst ` set ps)" by (rule set_map_set)
  with Cons show ?case by auto
qed

lemma keyed_map_set: "keyed ps \<Longrightarrow> key v = k \<Longrightarrow> keyed (map_set k v ps)"
  by (induction ps) (auto simp: keyed_def)

lemma in_map_set: "(k, v) \<in> set (map_set k' v' ps) \<Longrightarrow> (k, v) = (k', v') \<or> (k, v) \<in> set ps"
  by (induction ps) (auto split: if_splits)

lemma map_set_idem: "map_set k v (map_set k v ps) = map_set k v ps"
  by (induction ps) auto

lemma collect_keys:
  "collect_brushes ts d acc shs = Inr bs \<Longrightarrow>
   fst ` set bs = fst ` set acc \<union> set (needed_keys ts d shs)"
proof (induction shs arbitrary: acc)
  case Nil
  then show ?case by (simp add: needed_keys_def)
next
  case (Cons s ss)
  show ?case
  proof (cases "present (dest (shape s))")
    case None
    with Cons show ?thesis by (simp add: needed_keys_def shape_keys_def)
  next
    case (Some k)
    with Cons.prems obtain b where b: "resolve_brush ts (brushes d) (shape s) = Some b"
      by (auto split: option.splits)
    let ?acc1 = "if wants_hilite (shape s) then map_set ''hilite'' hilite_brush acc else acc"
    from Cons.prems Some b have "collect_brushes ts d (map_set (key b) b ?acc1) ss = Inr bs"
      by (simp add: Let_def)
    from Cons.IH [OF this] show ?thesis
      using Some b by (auto simp: set_map_set needed_keys_def shape_keys_def)
  qed
qed

lemma collect_distinct:
  "collect_brushes ts d acc shs = Inr bs \<Longrightarrow> distinct (map fst acc) \<Longrightarrow> distinct (map fst bs)"
proof (induction shs arbitrary: acc)
  case Nil
  then show ?case by simp
next
  case (Cons s ss)
  show ?case
  proof (cases "present (dest (shape s))")
    case None
    with Cons show ?thesis by simp
  next
    case (Some k)
    with Cons.prems obtain b where b: "resolve_brush ts (brushes d) (shape s) = Some b"
      by (auto split: option.splits)
    let ?acc1 = "if wants_hilite (shape s) then map_set ''hilite'' hilite_brush acc else acc"
    from Cons.prems Some b have "collect_brushes ts d (map_set (key b) b ?acc1) ss = Inr bs"
      by (simp add: Let_def)
    moreover have "distinct (map fst (map_set (key b) b ?acc1))"
      using Cons.prems(2) by (simp add: distinct_map_set)
    ultimately show ?thesis by (rule Cons.IH)
  qed
qed

lemma keyed_hilite: "key hilite_brush = ''hilite''"
  by (simp add: hilite_brush_def)

lemma collect_keyed:
  "collect_brushes ts d acc shs = Inr bs \<Longrightarrow> keyed acc \<Longrightarrow> keyed bs"
proof (induction shs arbitrary: acc)
  case Nil
  then show ?case by simp
next
  case (Cons s ss)
  show ?case
  proof (cases "present (dest (shape s))")
    case None
    with Cons show ?thesis by simp
  next
    case (Some k)
    with Cons.prems obtain b where b: "resolve_brush ts (brushes d) (shape s) = Some b"
      by (auto split: option.splits)
    let ?acc1 = "if wants_hilite (shape s) then map_set ''hilite'' hilite_brush acc else acc"
    from Cons.prems Some b have "collect_brushes ts d (map_set (key b) b ?acc1) ss = Inr bs"
      by (simp add: Let_def)
    moreover have "keyed (map_set (key b) b ?acc1)"
      using Cons.prems(2) by (simp add: keyed_map_set keyed_hilite)
    ultimately show ?thesis by (rule Cons.IH)
  qed
qed

lemma collect_origin:
  "collect_brushes ts d acc shs = Inr bs \<Longrightarrow> (k, v) \<in> set bs \<Longrightarrow>
   (k, v) \<in> set acc \<or> (k, v) = (''hilite'', hilite_brush)
   \<or> (\<exists>s \<in> set shs. resolve_brush ts (brushes d) (shape s) = Some v \<and> key v = k)"
proof (induction shs arbitrary: acc)
  case Nil
  then show ?case by simp
next
  case (Cons s ss)
  show ?case
  proof (cases "present (dest (shape s))")
    case None
    with Cons.prems have "collect_brushes ts d acc ss = Inr bs" by simp
    from Cons.IH [OF this Cons.prems(2)] show ?thesis by auto
  next
    case (Some k')
    with Cons.prems obtain b where b: "resolve_brush ts (brushes d) (shape s) = Some b"
      by (auto split: option.splits)
    let ?acc1 = "if wants_hilite (shape s) then map_set ''hilite'' hilite_brush acc else acc"
    from Cons.prems Some b have "collect_brushes ts d (map_set (key b) b ?acc1) ss = Inr bs"
      by (simp add: Let_def)
    from Cons.IH [OF this Cons.prems(2)] show ?thesis
      using b by (auto dest!: in_map_set split: if_splits)
  qed
qed

lemma collect_total:
  "\<forall>s \<in> set shs. present (dest (shape s)) \<noteq> None \<longrightarrow> brushes d (brush (shape s)) \<noteq> None \<Longrightarrow>
   \<exists>bs. collect_brushes ts d acc shs = Inr bs"
proof (induction shs arbitrary: acc)
  case Nil
  then show ?case by simp
next
  case (Cons s ss)
  then show ?case
    by (cases "present (dest (shape s))") (auto simp: resolve_brush_def Let_def)
qed

lemma collect_shared:
  "\<forall>s \<in> set shs. present (dest (shape s)) \<noteq> None \<and> brush (shape s) = n
      \<and> modifiers (shape s) = None \<Longrightarrow>
   brushes d n = Some b \<Longrightarrow>
   collect_brushes ts d (map_set (key b) b acc) shs = Inr (map_set (key b) b acc)"
  by (induction shs) (auto simp: resolve_brush_def wants_hilite_def map_set_idem)

lemma append_defs_eq:
  "append_defs ks pool bs =
     pool @ concat (map (\<lambda>p. def_pair (snd p)) (filter (\<lambda>p. Some [Txt (fst p)] \<notin> set ks) bs))"
  by (induction bs arbitrary: pool) (simp_all add: def_pair_def)

lemma marker_cgKey: "getAttribute (renderMarker b) ''cgKey'' = Some [Txt (key b)]"
  by (simp add: renderMarker_def createElement_def)

lemma marker_id: "getAttribute (renderMarker b) ''id'' = Some [Txt (''arrowhead-'' @ key b)]"
  by (simp add: renderMarker_def createElement_def)

lemma gradient_id:
  "getAttribute (renderLinearOpacityGradient b) ''id'' = Some [Txt (''linearOpacityGradient-'' @ key b)]"
  by (simp add: renderLinearOpacityGradient_def createElement_def)

lemma gradient_cgKey: "getAttribute (renderLinearOpacityGradient b) ''cgKey'' = None"
  by (simp add: renderLinearOpacityGradient_def createElement_def)

lemma count_fst:
  "distinct (map fst bs) \<Longrightarrow>
   length (filter (\<lambda>p. fst p = k) bs) = (if k \<in> fst ` set bs then 1 else 0)"
  by (induction bs) (auto simp: image_iff)

lemma markers_of_key:
  "keyed bs \<Longrightarrow>
   filter (\<lambda>e. getAttribute e ''cgKey'' = Some [Txt k]) (concat (map (\<lambda>p. def_pair (snd p)) bs))
     = map (\<lambda>p. renderMarker (snd p)) (filter (\<lambda>p. fst p = k) bs)"
  by (induction bs) (auto simp: keyed_def def_pair_def marker_cgKey gradient_cgKey)

lemma gradients_of_key:
  "keyed bs \<Longrightarrow>
   filter (\<lambda>e. getAttribute e ''id'' = Some [Txt (''linearOpacityGradient-'' @ k)])
       (concat (map (\<lambda>p. def_pair (snd p)) bs))
     = map (\<lambda>p. renderLinearOpacityGradient (snd p)) (filter (\<lambda>p. fst p = k) bs)"
  by (induction bs) (auto simp: keyed_def def_pair_def marker_id gradient_id)

lemma keyed_filter: "keyed bs \<Longrightarrow> keyed (filter P bs)"
  by (simp add: keyed_def list_all_iff)

lemma keyed_map_key: "keyed bs \<Longrightarrow> map key (map snd bs) = map fst bs"
  by (induction bs) (auto simp: keyed_def)

lemma syncDefs_added:
  assumes "syncDefs ts d shs pool = Inr pool'"
  shows "\<exists>bs. pool' = pool @ concat (map (\<lambda>p. def_pair (snd p)) bs)
           \<and> keyed bs \<and> distinct (map fst bs)
           \<and> fst ` set bs = {k \<in> set (needed_keys ts d shs). Some [Txt k] \<notin> set (keysInDom pool)}
           \<and> (\<forall>p \<in> set bs. fst p = ''hilite'' \<longrightarrow>
                 snd p = hilite_brush
                 \<or> (\<exists>s \<in> set shs. resolve_brush ts (brushes d) (shape s) = Some (snd p)))"
proof -
  from assms obtain all where c: "collect_brushes ts d [] shs = Inr all"
    and p: "pool' = append_defs (keysInDom pool) pool all"
    by (auto simp: syncDefs_def split: sum.splits)
  let ?bs = "filter (\<lambda>p. Some [Txt (fst p)] \<notin> set (keysInDom pool)) all"
  have k: "keyed all" using c by (rule collect_keyed) (simp add: keyed_def)
  have d: "distinct (map fst all)" using c by (rule collect_distinct) simp
  have n: "fst ` set all = set (needed_keys ts d shs)" using collect_keys [OF c] by simp
  have o: "snd q = hilite_brush
      \<or> (\<exists>s \<in> set shs. resolve_brush ts (brushes d) (shape s) = Some (snd q))"
    if "q \<in> set all" "fst q = ''hilite''" for q
    using collect_origin [OF c, of "fst q" "snd q"] that by (cases q) auto
  have "pool' = pool @ concat (map (\<lambda>p. def_pair (snd p)) ?bs)"
    using p by (simp add: append_defs_eq)
  moreover have "keyed ?bs" using k by (rule keyed_filter)
  moreover have "distinct (map fst ?bs)" using d by (simp add: distinct_map_filter)
  moreover have "fst ` set ?bs
      = {k \<in> set (needed_keys ts d shs). Some [Txt k] \<notin> set (keysInDom pool)}"
    using n by (auto simp: image_iff)
  moreover have "\<forall>p \<in> set ?bs. fst p = ''hilite'' \<longrightarrow>
                 snd p = hilite_brush
                 \<or> (\<exists>s \<in> set shs. resolve_brush ts (brushes d) (shape s) = Some (snd p))"
    using o by auto
  ultimately show ?thesis by blast
qed

text \<open>
  C4. When \<open>syncDefs\<close> returns, the children the pool had are still there, in place,
  followed by what was appended. For every key, what was appended holds exactly one
  arrowhead marker tagged with the key and exactly one linear-opacity gradient named after
  it when a shape with a destination uses a brush of that key (or asks for \<open>hilite\<close>)
  and no child of the pool was tagged with the key, and none otherwise; it holds nothing
  but such pairs. \<open>syncDefs\<close> returns whenever the catalog has the brush of every
  shape with a destination. Any number of shapes with a destination that share one brush
  and have no modifiers give exactly one pair, or nothing when the key is already tagged
  in the pool.
\<close>

theorem syncDefs_append_only:
  "(syncDefs ts d shs pool = Inr pool' \<longrightarrow>
      (\<exists>added.
          pool' = pool @ added
        \<and> (\<forall>k. length (filter (\<lambda>e. getAttribute e ''cgKey'' = Some [Txt k]) added)
               = (if k \<in> set (needed_keys ts d shs) \<and> Some [Txt k] \<notin> set (keysInDom pool)
                  then 1 else 0))
        \<and> (\<forall>k. length (filter (\<lambda>e. getAttribute e ''id''
                                        = Some [Txt (''linearOpacityGradient-'' @ k)]) added)
               = (if k \<in> set (needed_keys ts d shs) \<and> Some [Txt k] \<notin> set (keysInDom pool)
                  then 1 else 0))
        \<and> (\<exists>bs. added = concat (map def_pair bs) \<and> distinct (map key bs)
               \<and> set (map key bs)
                   = {k \<in> set (needed_keys ts d shs). Some [Txt k] \<notin> set (keysInDom pool)})))
   \<and> ((\<forall>s \<in> set shs. present (dest (shape s)) \<noteq> None \<longrightarrow> brushes d (brush (shape s)) \<noteq> None)
        \<longrightarrow> (\<exists>result. syncDefs ts d shs pool = Inr result))
   \<and> (shs \<noteq> [] \<and> brushes d n = Some b
        \<and> (\<forall>s \<in> set shs. present (dest (shape s)) \<noteq> None \<and> brush (shape s) = n
              \<and> modifiers (shape s) = None) \<longrightarrow>
       syncDefs ts d shs pool =
         Inr (if Some [Txt (key b)] \<in> set (keysInDom pool) then pool
              else pool @ [renderMarker b, renderLinearOpacityGradient b]))"
proof (intro conjI impI)
  assume "syncDefs ts d shs pool = Inr pool'"
  from syncDefs_added [OF this] obtain bs where
    p: "pool' = pool @ concat (map (\<lambda>p. def_pair (snd p)) bs)"
    and k: "keyed bs" and d: "distinct (map fst bs)"
    and n: "fst ` set bs = {k \<in> set (needed_keys ts d shs). Some [Txt k] \<notin> set (keysInDom pool)}"
    by blast
  let ?added = "concat (map (\<lambda>p. def_pair (snd p)) bs)"
  have m: "length (filter (\<lambda>e. getAttribute e ''cgKey'' = Some [Txt k]) ?added)
      = (if k \<in> set (needed_keys ts d shs) \<and> Some [Txt k] \<notin> set (keysInDom pool) then 1 else 0)"
    for k
    unfolding markers_of_key [OF k] length_map count_fst [OF d] n by simp
  have g: "length (filter (\<lambda>e. getAttribute e ''id''
        = Some [Txt (''linearOpacityGradient-'' @ k)]) ?added)
      = (if k \<in> set (needed_keys ts d shs) \<and> Some [Txt k] \<notin> set (keysInDom pool) then 1 else 0)"
    for k
    unfolding gradients_of_key [OF k] length_map count_fst [OF d] n by simp
  have s: "?added = concat (map def_pair (map snd bs)) \<and> distinct (map key (map snd bs))
      \<and> set (map key (map snd bs))
          = {k \<in> set (needed_keys ts d shs). Some [Txt k] \<notin> set (keysInDom pool)}"
    unfolding keyed_map_key [OF k] using d n by (simp add: comp_def)
  from p m g s show "\<exists>added.
          pool' = pool @ added
        \<and> (\<forall>k. length (filter (\<lambda>e. getAttribute e ''cgKey'' = Some [Txt k]) added)
               = (if k \<in> set (needed_keys ts d shs) \<and> Some [Txt k] \<notin> set (keysInDom pool)
                  then 1 else 0))
        \<and> (\<forall>k. length (filter (\<lambda>e. getAttribute e ''id''
                                        = Some [Txt (''linearOpacityGradient-'' @ k)]) added)
               = (if k \<in> set (needed_keys ts d shs) \<and> Some [Txt k] \<notin> set (keysInDom pool)
                  then 1 else 0))
        \<and> (\<exists>bs. added = concat (map def_pair bs) \<and> distinct (map key bs)
               \<and> set (map key bs)
                   = {k \<in> set (needed_keys ts d shs). Some [Txt k] \<notin> set (keysInDom pool)})"
    by blast
next
  assume "\<forall>s \<in> set shs. present (dest (shape s)) \<noteq> None \<longrightarrow> brushes d (brush (shape s)) \<noteq> None"
  from collect_total [OF this, of ts "[]"] show "\<exists>result. syncDefs ts d shs pool = Inr result"
    by (auto simp: syncDefs_def)
next
  assume a: "shs \<noteq> [] \<and> brushes d n = Some b
        \<and> (\<forall>s \<in> set shs. present (dest (shape s)) \<noteq> None \<and> brush (shape s) = n
              \<and> modifiers (shape s) = None)"
  then obtain s ss where shs: "shs = s # ss" by (cases shs) auto
  from a shs have rest: "\<forall>s \<in> set ss. present (dest (shape s)) \<noteq> None \<and> brush (shape s) = n
              \<and> modifiers (shape s) = None"
    by simp
  from a shs have "collect_brushes ts d [] shs = collect_brushes ts d (map_set (key b) b []) ss"
    by (auto simp: resolve_brush_def wants_hilite_def)
  also have "\<dots> = Inr (map_set (key b) b [])"
    using rest a by (intro collect_shared) auto
  finally show "syncDefs ts d shs pool =
         Inr (if Some [Txt (key b)] \<in> set (keysInDom pool) then pool
              else pool @ [renderMarker b, renderLinearOpacityGradient b])"
    by (simp add: syncDefs_def)
qed

theorem syncDefs_append_only_witness:
  "syncDefs int_text two_green (pass_shapes int_text two_green board) []
     = Inr [renderMarker green, renderLinearOpacityGradient green]
   \<and> syncDefs int_text two_green (pass_shapes int_text two_green board)
        [renderMarker green, renderLinearOpacityGradient green]
     = Inr [renderMarker green, renderLinearOpacityGradient green]"
proof -
  have a: "pass_shapes int_text two_green board \<noteq> [] \<and> brushes two_green ''green'' = Some green
        \<and> (\<forall>s \<in> set (pass_shapes int_text two_green board).
              present (dest (shape s)) \<noteq> None \<and> brush (shape s) = ''green''
              \<and> modifiers (shape s) = None)"
    by (simp add: two_green_def drawable_of_def pass_shapes_def nonPieceAutoShapes_def
        cur_list_def current_shape_def arrow_to_def present_def)
  note t = syncDefs_append_only [THEN conjunct2, THEN conjunct2, rule_format, OF a]
  have k: "key green = ''g''" by (simp add: green_def)
  from t [where ts = int_text and pool = "[]"] have first: "syncDefs int_text two_green (pass_shapes int_text two_green board) []
     = Inr [renderMarker green, renderLinearOpacityGradient green]"
    by (simp add: keysInDom_def)
  from t [where ts = int_text and pool = "[renderMarker green, renderLinearOpacityGradient green]"]
  have second: "syncDefs int_text two_green (pass_shapes int_text two_green board)
        [renderMarker green, renderLinearOpacityGradient green]
     = Inr [renderMarker green, renderLinearOpacityGradient green]"
    by (simp add: keysInDom_def marker_cgKey)
  from first second show ?thesis by (rule conjI)
qed

lemma keysInDom_append: "keysInDom (xs @ ys) = keysInDom xs @ keysInDom ys"
  by (simp add: keysInDom_def)

lemma hilite_needed:
  "sc \<in> set shs \<Longrightarrow> present (dest (shape sc)) \<noteq> None \<Longrightarrow> wants_hilite (shape sc) \<Longrightarrow>
   ''hilite'' \<in> set (needed_keys ts d shs)"
  by (auto simp: needed_keys_def shape_keys_def intro!: bexI [of _ sc])

text \<open>
  C7, as the code has it. The claim has the \<open>hilite\<close> brush ensured whenever any shape
  of the pass asks for it. The code looks at the modifier only inside \<open>if (s.shape.dest)\<close>:
  a highlighted square, which has no destination, leaves the pool without the brush.
\<close>

theorem hilite_square_no_brush:
  "wants_hilite hilite_square
   \<and> map shape (pass_shapes int_text (drawable_of [hilite_square] [] None) board) = [hilite_square]
   \<and> syncDefs int_text (drawable_of [hilite_square] [] None)
        (pass_shapes int_text (drawable_of [hilite_square] [] None) board) [] = Inr []"
  by (simp add: hilite_square_def wants_hilite_def drawable_of_def pass_shapes_def
      nonPieceAutoShapes_def cur_list_def current_shape_def syncDefs_def present_def)

text \<open>
  C7, amended. Whenever a shape of the pass that has a destination asks for \<open>hilite\<close>
  and \<open>syncDefs\<close> returns, the pool holds an element tagged \<open>hilite\<close> afterwards;
  when none was there before and no brush of the pass has the key \<open>hilite\<close> itself, it
  is the marker and the gradient of the synthetic brush (white, opacity 1, line width 1).
\<close>

theorem hilite_brush_ensured:
  assumes "syncDefs ts d shs pool = Inr pool'"
    and "sc \<in> set shs" and "present (dest (shape sc)) \<noteq> None" and "wants_hilite (shape sc)"
  shows "Some [Txt ''hilite''] \<in> set (keysInDom pool')
    \<and> (Some [Txt ''hilite''] \<notin> set (keysInDom pool)
        \<and> (\<forall>s \<in> set shs. \<forall>b. resolve_brush ts (brushes d) (shape s) = Some b \<longrightarrow> key b \<noteq> ''hilite'')
        \<longrightarrow> renderMarker hilite_brush \<in> set pool'
            \<and> renderLinearOpacityGradient hilite_brush \<in> set pool')"
proof -
  from syncDefs_added [OF assms(1)] obtain bs where
    p: "pool' = pool @ concat (map (\<lambda>p. def_pair (snd p)) bs)"
    and k: "keyed bs"
    and n: "fst ` set bs = {k \<in> set (needed_keys ts d shs). Some [Txt k] \<notin> set (keysInDom pool)}"
    and o: "\<forall>p \<in> set bs. fst p = ''hilite'' \<longrightarrow>
                 snd p = hilite_brush
                 \<or> (\<exists>s \<in> set shs. resolve_brush ts (brushes d) (shape s) = Some (snd p))"
    by blast
  have need: "''hilite'' \<in> set (needed_keys ts d shs)"
    using assms(2-4) by (rule hilite_needed)
  have fresh: "\<exists>q \<in> set bs. fst q = ''hilite''"
    if "Some [Txt ''hilite''] \<notin> set (keysInDom pool)"
  proof -
    from need that n have "''hilite'' \<in> fst ` set bs" by simp
    then obtain q where "q \<in> set bs" and "''hilite'' = fst q" by (rule imageE)
    then show ?thesis by (intro bexI [of _ q]) simp_all
  qed
  have tagged: "Some [Txt ''hilite''] \<in> set (keysInDom pool')"
  proof (cases "Some [Txt ''hilite''] \<in> set (keysInDom pool)")
    case True
    then show ?thesis by (simp add: p keysInDom_append)
  next
    case False
    from fresh [OF False] obtain q where q: "q \<in> set bs" "fst q = ''hilite''" by blast
    with k have "key (snd q) = ''hilite''" by (auto simp: keyed_def list_all_iff)
    then have "getAttribute (renderMarker (snd q)) ''cgKey'' = Some [Txt ''hilite'']"
      by (simp add: marker_cgKey)
    moreover have "renderMarker (snd q) \<in> set pool'"
      using q(1) by (auto simp: p def_pair_def)
    ultimately show ?thesis
      by (auto simp: keysInDom_def image_iff intro!: bexI [of _ "renderMarker (snd q)"])
  qed
  have white: "renderMarker hilite_brush \<in> set pool'
            \<and> renderLinearOpacityGradient hilite_brush \<in> set pool'"
    if f: "Some [Txt ''hilite''] \<notin> set (keysInDom pool)"
      and nk: "\<forall>s \<in> set shs. \<forall>b. resolve_brush ts (brushes d) (shape s) = Some b \<longrightarrow> key b \<noteq> ''hilite''"
  proof -
    from fresh [OF f] obtain q where q: "q \<in> set bs" "fst q = ''hilite''" by blast
    with k have kq: "key (snd q) = ''hilite''" by (auto simp: keyed_def list_all_iff)
    from o q have "snd q = hilite_brush
        \<or> (\<exists>s \<in> set shs. resolve_brush ts (brushes d) (shape s) = Some (snd q))"
      by blast
    with nk kq have "snd q = hilite_brush" by blast
    with q(1) show ?thesis
      by (auto simp: p def_pair_def intro!: bexI [of _ q])
  qed
  from tagged white show ?thesis by blast
qed

theorem hilite_brush_ensured_witness:
  "syncDefs int_text (drawable_of [hilite_arrow] [] None)
        (pass_shapes int_text (drawable_of [hilite_arrow] [] None) board) []
     = Inr [renderMarker hilite_brush, renderLinearOpacityGradient hilite_brush,
            renderMarker (makeCustomBrush int_text green \<lparr> mLineWidth = None, hilite = Some True \<rparr>),
            renderLinearOpacityGradient
              (makeCustomBrush int_text green \<lparr> mLineWidth = None, hilite = Some True \<rparr>)]
   \<and> Some [Txt ''hilite''] \<in> set (keysInDom
        [renderMarker hilite_brush, renderLinearOpacityGradient hilite_brush,
         renderMarker (makeCustomBrush int_text green \<lparr> mLineWidth = None, hilite = Some True \<rparr>),
         renderLinearOpacityGradient
           (makeCustomBrush int_text green \<lparr> mLineWidth = None, hilite = Some True \<rparr>)])"
proof -
  let ?d = "drawable_of [hilite_arrow] [] None"
  let ?shs = "pass_shapes int_text ?d board"
  let ?sc = "\<lparr> shape = hilite_arrow, isCurrent = False,
               hash = shapeHash int_text hilite_arrow (arrowDests_of ?d) False board \<rparr>"
  have shs: "?shs = [?sc]"
    by (simp add: drawable_of_def pass_shapes_def nonPieceAutoShapes_def cur_list_def
        current_shape_def)
  have kc: "key (makeCustomBrush int_text green \<lparr> mLineWidth = None, hilite = Some True \<rparr>) = ''g''"
    by (simp add: key_makeCustomBrush override_text_def green_def)
  have run: "syncDefs int_text ?d ?shs []
     = Inr [renderMarker hilite_brush, renderLinearOpacityGradient hilite_brush,
            renderMarker (makeCustomBrush int_text green \<lparr> mLineWidth = None, hilite = Some True \<rparr>),
            renderLinearOpacityGradient
              (makeCustomBrush int_text green \<lparr> mLineWidth = None, hilite = Some True \<rparr>)]"
    unfolding shs
    by (simp add: syncDefs_def hilite_arrow_def present_def resolve_brush_def drawable_of_def
        wants_hilite_def kc keysInDom_def)
  have "?sc \<in> set ?shs" unfolding shs by simp
  moreover have "present (dest (shape ?sc)) \<noteq> None" by (simp add: hilite_arrow_def present_def)
  moreover have "wants_hilite (shape ?sc)" by (simp add: hilite_arrow_def wants_hilite_def)
  ultimately have "Some [Txt ''hilite''] \<in> set (keysInDom
        [renderMarker hilite_brush, renderLinearOpacityGradient hilite_brush,
         renderMarker (makeCustomBrush int_text green \<lparr> mLineWidth = None, hilite = Some True \<rparr>),
         renderLinearOpacityGradient
           (makeCustomBrush int_text green \<lparr> mLineWidth = None, hilite = Some True \<rparr>)])"
    by (rule hilite_brush_ensured [OF run, THEN conjunct1])
  with run show ?thesis by (rule conjI)
qed

subsection \<open>Rendered arrows and squares\<close>

lemma cos_atan2: "x \<noteq> 0 \<or> y \<noteq> 0 \<Longrightarrow> cos (atan2 y x) = x / sqrt (x\<^sup>2 + y\<^sup>2)"
proof -
  assume "x \<noteq> 0 \<or> y \<noteq> 0"
  then have z: "Complex x y \<noteq> 0" by (auto simp: complex_eq_iff)
  have "cos (atan2 y x) = Re (cis (Arg (Complex x y)))" by (simp add: atan2_def)
  also have "\<dots> = Re (sgn (Complex x y))" by (simp only: cis_Arg [OF z])
  also have "\<dots> = x / sqrt (x\<^sup>2 + y\<^sup>2)" by (simp add: sgn_eq cmod_def)
  finally show ?thesis .
qed

lemma sin_atan2: "x \<noteq> 0 \<or> y \<noteq> 0 \<Longrightarrow> sin (atan2 y x) = y / sqrt (x\<^sup>2 + y\<^sup>2)"
proof -
  assume "x \<noteq> 0 \<or> y \<noteq> 0"
  then have z: "Complex x y \<noteq> 0" by (auto simp: complex_eq_iff)
  have "sin (atan2 y x) = Im (cis (Arg (Complex x y)))" by (simp add: atan2_def)
  also have "\<dots> = Im (sgn (Complex x y))" by (simp only: cis_Arg [OF z])
  also have "\<dots> = y / sqrt (x\<^sup>2 + y\<^sup>2)" by (simp add: sgn_eq cmod_def)
  finally show ?thesis .
qed

lemma atan2_origin: "atan2 0 0 = 0"
  by (simp add: atan2_def Arg_def zero_complex.code [symmetric])

lemma sqrt_sum_zero: "(sqrt (x\<^sup>2 + y\<^sup>2) = 0) = (x = 0 \<and> y = (0::real))"
  by (simp add: sum_power2_eq_zero_iff)

lemma shaft_margin_eq:
  "shaft_margin shorten cur = (if shorten \<and> \<not> cur then 20 / 64 else 10 / 64)"
  by (simp add: shaft_margin_def arrowMargin_def)

lemma inner_rects:
  "map (\<lambda>r. getAttribute r ''width'') (tagged ''rect'' (renderInner b og ds cur shorten bnds h))
     = [Some [num_frag (shaft_length og ds bnds (shaft_margin shorten cur))]]"
  by (auto simp: renderInner_def Let_def createElement_def shaft_length_def
      lift2_def power2_eq_square split: option.splits)

lemma inner_lines:
  "map (\<lambda>l. (getAttribute l ''x2'', getAttribute l ''y2''))
       (tagged ''line'' (renderInner b og ds cur shorten bnds h))
     = [(Some [num_frag (map_option fst (shaft_end og ds bnds (shaft_margin shorten cur)))],
         Some [num_frag (map_option snd (shaft_end og ds bnds (shaft_margin shorten cur)))])]"
proof (cases "pos2user og bnds")
  case None
  then show ?thesis
    by (simp add: renderInner_def Let_def createElement_def shaft_end_def lift2_def
        split: option.splits)
next
  case a: (Some a)
  show ?thesis
  proof (cases "pos2user ds bnds")
    case None
    with a show ?thesis
      by (simp add: renderInner_def Let_def createElement_def shaft_end_def lift2_def
          split: option.splits)
  next
    case c: (Some c)
    show ?thesis
    proof (cases "fst c - fst a = 0 \<and> snd c - snd a = 0")
      case True
      with a c show ?thesis
        by (simp add: renderInner_def Let_def createElement_def shaft_end_def lift2_def
            atan2_origin)
    next
      case False
      then have nz: "fst c - fst a \<noteq> 0 \<or> snd c - snd a \<noteq> 0" by simp
      from False have l: "sqrt ((fst c - fst a)\<^sup>2 + (snd c - snd a)\<^sup>2) \<noteq> 0"
        by (simp only: sqrt_sum_zero) simp
      show ?thesis
        using a c l
        by (auto simp: renderInner_def Let_def createElement_def shaft_end_def lift2_def
            cos_atan2 [OF nz] sin_atan2 [OF nz] mult.commute)
    qed
  qed
qed

lemma inner_root:
  "\<exists>as cs. renderInner b og ds cur shorten bnds h = Elem ''g'' as cs"
  by (simp add: renderInner_def Let_def createElement_def)

lemma arrow_drawn_margin:
  "drawn_with_margin (setAttribute (renderRectangleArrow b og ds cur shorten bnds hil) n v)
     og ds bnds (if hil then 2 else 1) (if shorten \<and> \<not> cur then 20 / 64 else 10 / 64)"
proof -
  obtain as cs where g: "renderInner b og ds cur shorten bnds False = Elem ''g'' as cs"
    using inner_root by blast
  have t: "tagged t (setAttribute (renderInner b og ds cur shorten bnds False) n v)
      = tagged t (renderInner b og ds cur shorten bnds False)"
    if "t \<noteq> ''g''" for t
    using that unfolding g by auto
  show ?thesis
  proof (cases hil)
    case True
    then show ?thesis
      unfolding drawn_with_margin_def shaft_margin_eq [symmetric]
      by (simp add: renderRectangleArrow_def createElement_def inner_rects inner_lines numeral_2_eq_2)
  next
    case False
    then show ?thesis
      unfolding drawn_with_margin_def shaft_margin_eq [symmetric]
      by (simp add: renderRectangleArrow_def t inner_rects inner_lines)
  qed
qed

lemma pass_pairs:
  "map (\<lambda>sh. (shape sh, isCurrent sh)) (pass_shapes ts d b) = pass_list d"
  by (simp add: pass_shapes_def pass_list_def nonPieceAutoShapes_def comp_def)

lemma sharing_count: "k \<noteq> [] \<Longrightarrow> dest_count (arrowDests_of d) k = sharing d k"
  by (simp add: dest_count_arrowDests_of sharing_def pass_list_def nonPieceAutoShapes_def
      filter_map comp_def)

lemma get_set_attr: "map_of (set_attr n v as) n = Some v"
  by (induction as) auto

lemma square_drawn_render:
  "square_drawn (setAttribute (renderSquare b p cur bnds) ''cgHash'' v) b p cur bnds"
  by (simp add: square_drawn_def renderSquare_def createElement_def Let_def)

lemma square_hash:
  "getAttribute (setAttribute (renderSquare b p cur bnds) ''cgHash'' v) ''cgHash'' = Some v"
  by (simp add: renderSquare_def createElement_def Let_def)

lemma arrow_hash:
  "getAttribute (setAttribute (renderRectangleArrow b og ds cur shorten bnds hil) ''cgHash'' v)
     ''cgHash'' = Some v"
proof -
  obtain as cs where "renderInner b og ds cur shorten bnds False = Elem ''g'' as cs"
    using inner_root by blast
  then show ?thesis
    by (cases hil) (simp_all add: renderRectangleArrow_def createElement_def get_set_attr)
qed

lemma renderShape_arrow_case:
  "present (customSvg (shape sh)) = None \<Longrightarrow> dest (shape sh) = Some k \<Longrightarrow> k \<noteq> [] \<Longrightarrow>
   k \<noteq> orig (shape sh) \<Longrightarrow>
   renderShape ts k2p st sh brs ad bnds =
     (case resolve_brush ts brs (shape sh) of
        None \<Rightarrow> Inl TypeError
      | Some b \<Rightarrow> Inr (setAttribute
           (renderRectangleArrow b (orient (k2p (orig (shape sh))) (orientation st))
              (orient (k2p k) (orientation st)) (isCurrent sh) (1 < dest_count ad k) bnds
              (wants_hilite (shape sh)))
           ''cgHash'' [Txt (hash sh)]))"
  by (simp add: renderShape_def Let_def present_def split: option.splits)

lemma renderShape_arrow_drawn:
  assumes "is_arrow (shape sh)"
    and "renderShape ts k2p st sh brs (arrowDests_of d) (dom_bounds st) = Inr E"
  shows "arrow_drawn k2p st (shape sh) E (merge_margin d (shape sh) (isCurrent sh))
    \<and> getAttribute E ''cgHash'' = Some [Txt (hash sh)]"
proof -
  from assms(1) obtain k where k: "dest (shape sh) = Some k" "k \<noteq> []" "k \<noteq> orig (shape sh)"
    and c: "present (customSvg (shape sh)) = None"
    by (auto simp: is_arrow_def split: option.splits)
  note r = renderShape_arrow_case [OF c k, of ts k2p st brs "arrowDests_of d" "dom_bounds st"]
  from assms(2) obtain b where
    E: "E = setAttribute
           (renderRectangleArrow b (orient (k2p (orig (shape sh))) (orientation st))
              (orient (k2p k) (orientation st)) (isCurrent sh)
              (1 < dest_count (arrowDests_of d) k) (dom_bounds st) (wants_hilite (shape sh)))
           ''cgHash'' [Txt (hash sh)]"
    unfolding r by (cases "resolve_brush ts brs (shape sh)") auto
  have m: "merge_margin d (shape sh) (isCurrent sh)
      = (if 1 < dest_count (arrowDests_of d) k \<and> \<not> isCurrent sh then 20 / 64 else 10 / 64)"
    by (simp add: merge_margin_def k sharing_count)
  have "arrow_drawn k2p st (shape sh) E (merge_margin d (shape sh) (isCurrent sh))"
    unfolding E m arrow_drawn_def k option.case by (rule arrow_drawn_margin)
  moreover have "getAttribute E ''cgHash'' = Some [Txt (hash sh)]"
    unfolding E by (rule arrow_hash)
  ultimately show ?thesis ..
qed

lemma renderShape_square_case:
  assumes "is_square (shape sh)"
  shows "renderShape ts k2p st sh brs ad bnds =
     (case brs (brush (shape sh)) of
        None \<Rightarrow> Inl TypeError
      | Some b \<Rightarrow> Inr (setAttribute
           (renderSquare b (orient (k2p (orig (shape sh))) (orientation st)) (isCurrent sh) bnds)
           ''cgHash'' [Txt (hash sh)]))"
  using assms
  by (auto simp: is_square_def renderShape_def Let_def present_def split: option.splits if_splits)

lemma render_all_list_all2:
  "render_all f xs = Inr ys \<Longrightarrow> list_all2 (\<lambda>x y. f x = Inr y) xs ys"
  by (induction xs arbitrary: ys) (auto split: sum.splits)

lemma render_all_total:
  "\<forall>x \<in> set xs. \<not> isl (f x) \<Longrightarrow> \<exists>ys. render_all f xs = Inr ys"
proof (induction xs)
  case Nil
  then show ?case by simp
next
  case (Cons x xs)
  then obtain y ys where "f x = Inr y" "render_all f xs = Inr ys"
    by (cases "f x") auto
  then show ?case by simp
qed

lemma syncShapes_fresh:
  assumes "syncShapes shs parent render = Inr layer"
  shows "\<exists>new. layer = filter (\<lambda>el. getAttribute el ''cgHash''
                    \<in> set (map (\<lambda>sh. Some [Txt (hash sh)]) shs)) parent @ new
      \<and> list_all2 (\<lambda>sh E. render sh = Inr E)
          (filter (\<lambda>sh. Some [Txt (hash sh)] \<notin> set (map (\<lambda>el. getAttribute el ''cgHash'') parent)) shs)
          new"
proof -
  let ?fresh = "filter (\<lambda>sh. Some [Txt (hash sh)] \<notin> set (map (\<lambda>el. getAttribute el ''cgHash'') parent)) shs"
  from assms obtain new where n: "render_all render ?fresh = Inr new"
    and l: "layer = filter (\<lambda>el. getAttribute el ''cgHash''
                    \<in> set (map (\<lambda>sh. Some [Txt (hash sh)]) shs)) parent @ new"
    unfolding syncShapes_def Let_def
    by (cases "render_all render ?fresh") auto
  from render_all_list_all2 [OF n] l show ?thesis
    by (intro exI [of _ new] conjI)
qed

lemma renderSvg_shapes_layer:
  assumes "renderSvg ts k2p (st, sc) = Inr (st', sc')"
    and "fullHash ts (drawable st) (dom_bounds st) \<noteq> prevSvgHash (drawable st)"
  shows "syncShapes (filter (\<lambda>s. \<not> is_custom s) (pass_shapes ts (drawable st) (dom_bounds st)))
      (shapesEl sc)
      (\<lambda>s. renderShape ts k2p st s (brushes (drawable st)) (arrowDests_of (drawable st))
             (dom_bounds st)) = Inr (shapesEl sc')"
proof -
  let ?d = "drawable st"
  let ?st1 = "st\<lparr> drawable := ?d\<lparr> prevSvgHash := fullHash ts ?d (dom_bounds st) \<rparr> \<rparr>"
  have r: "renderShape ts k2p ?st1 s (brushes ?d) (arrowDests_of ?d) (dom_bounds st)
      = renderShape ts k2p st s (brushes ?d) (arrowDests_of ?d) (dom_bounds st)" for s
    by (rule renderShape_state) simp
  from assms have "syncShapes (filter (\<lambda>s. \<not> is_custom s) (pass_shapes ts ?d (dom_bounds st)))
      (shapesEl sc)
      (\<lambda>s. renderShape ts k2p ?st1 s (brushes ?d) (arrowDests_of ?d) (dom_bounds st))
      = Inr (shapesEl sc')"
    by (auto simp: renderSvg_def Let_def split: sum.splits)
  then show ?thesis
    by (simp only: r)
qed

lemma renderSvg_layer:
  assumes "renderSvg ts k2p (st, sc) = Inr (st', sc')"
    and "fullHash ts (drawable st) (dom_bounds st) \<noteq> prevSvgHash (drawable st)"
  shows "\<exists>new. shapesEl sc' =
        filter (\<lambda>el. getAttribute el ''cgHash''
                  \<in> set (map (\<lambda>sh. Some [Txt (hash sh)])
                       (filter (\<lambda>sh. \<not> is_custom sh) (pass_shapes ts (drawable st) (dom_bounds st)))))
          (shapesEl sc) @ new
      \<and> list_all2 (\<lambda>sh E. renderShape ts k2p st sh (brushes (drawable st))
                              (arrowDests_of (drawable st)) (dom_bounds st) = Inr E)
          (fresh_shapes ts st (shapesEl sc)) new"
proof -
  have f: "fresh_shapes ts st (shapesEl sc) =
      filter (\<lambda>sh. Some [Txt (hash sh)] \<notin> set (map (\<lambda>el. getAttribute el ''cgHash'') (shapesEl sc)))
        (filter (\<lambda>s. \<not> is_custom s) (pass_shapes ts (drawable st) (dom_bounds st)))"
    by (simp add: fresh_shapes_def is_custom_def conj_commute)
  show ?thesis
    unfolding f by (rule syncShapes_fresh [OF renderSvg_shapes_layer [OF assms]])
qed

lemma renderShape_total:
  "brs (brush (shape sh)) \<noteq> None \<Longrightarrow> \<not> isl (renderShape ts k2p st sh brs ad bnds)"
  by (auto simp: renderShape_def Let_def resolve_brush_def split: option.splits)

lemma syncShapes_total:
  "\<forall>sh \<in> set shs. \<not> isl (render sh) \<Longrightarrow> \<not> isl (syncShapes shs parent render)"
proof -
  assume a: "\<forall>sh \<in> set shs. \<not> isl (render sh)"
  let ?fresh = "filter (\<lambda>sc. Some [Txt (hash sc)] \<notin> set (map (\<lambda>el. getAttribute el ''cgHash'') parent)) shs"
  from a have "\<forall>sh \<in> set ?fresh. \<not> isl (render sh)" by simp
  from render_all_total [OF this] obtain ys where "render_all render ?fresh = Inr ys" ..
  then show ?thesis by (simp add: syncShapes_def Let_def)
qed

lemma not_isl: "\<not> isl x \<Longrightarrow> \<exists>y. x = Inr y"
  by (cases x) auto

lemma renderSvg_returns:
  assumes "\<forall>p \<in> set (pass_list (drawable st)). brushes (drawable st) (brush (fst p)) \<noteq> None"
  shows "\<not> isl (renderSvg ts k2p (st, sc))"
proof -
  let ?d = "drawable st"
  let ?shs = "pass_shapes ts ?d (dom_bounds st)"
  have all: "\<forall>sh \<in> set ?shs. brushes ?d (brush (shape sh)) \<noteq> None"
  proof
    fix sh assume "sh \<in> set ?shs"
    then have "(shape sh, isCurrent sh) \<in> set (map (\<lambda>sh. (shape sh, isCurrent sh)) ?shs)"
      by (auto simp: image_iff intro!: bexI [of _ sh])
    then have "(shape sh, isCurrent sh) \<in> set (pass_list ?d)"
      by (simp only: pass_pairs)
    with assms show "brushes ?d (brush (shape sh)) \<noteq> None" by fastforce
  qed
  then obtain bs where bs: "collect_brushes ts ?d [] ?shs = Inr bs"
    using collect_total [of ?shs ?d ts "[]"] by blast
  have r: "\<not> isl (syncShapes (filter P ?shs) parent
      (\<lambda>s. renderShape ts k2p st1 s (brushes ?d) ad bnds))" for P parent st1 ad bnds
    by (rule syncShapes_total) (simp add: all renderShape_total)
  let ?st1 = "st\<lparr> drawable := ?d\<lparr> prevSvgHash := fullHash ts ?d (dom_bounds st) \<rparr> \<rparr>"
  let ?render = "\<lambda>s. renderShape ts k2p ?st1 s (brushes ?d) (arrowDests_of ?d) (dom_bounds st)"
  let ?a = "syncShapes (filter (\<lambda>s. \<not> is_custom s) ?shs) (shapesEl sc) ?render"
  let ?b = "syncShapes (filter is_custom ?shs) (customSvgsEl sc) ?render"
  have "\<not> isl ?a" by (rule r)
  then obtain layer where a: "?a = Inr layer" by (cases ?a) auto
  have "\<not> isl ?b" by (rule r)
  then obtain customLayer where b: "?b = Inr customLayer" by (cases ?b) auto
  show ?thesis
    by (simp add: renderSvg_def Let_def syncDefs_def bs a b)
qed

lemma fresh_empty:
  "map (\<lambda>sh. (shape sh, isCurrent sh)) (fresh_shapes ts st [])
     = filter (\<lambda>p. present (customSvg (fst p)) = None) (pass_list (drawable st))"
  unfolding pass_pairs [of ts "drawable st" "dom_bounds st", symmetric]
  by (simp add: fresh_shapes_def filter_map comp_def)

lemma layer_arrows:
  assumes "renderSvg ts k2p (st, sc) = Inr (st', sc')"
    and "fullHash ts (drawable st) (dom_bounds st) \<noteq> prevSvgHash (drawable st)"
  shows "\<exists>kept new. shapesEl sc' = kept @ new \<and> set kept \<subseteq> set (shapesEl sc)
      \<and> list_all2 (\<lambda>sh E. is_arrow (shape sh) \<longrightarrow>
            arrow_drawn k2p st (shape sh) E
              (merge_margin (drawable st) (shape sh) (isCurrent sh)))
          (fresh_shapes ts st (shapesEl sc)) new"
proof -
  from renderSvg_layer [OF assms] obtain new where
    l: "shapesEl sc' =
        filter (\<lambda>el. getAttribute el ''cgHash''
                  \<in> set (map (\<lambda>sh. Some [Txt (hash sh)])
                       (filter (\<lambda>sh. \<not> is_custom sh) (pass_shapes ts (drawable st) (dom_bounds st)))))
          (shapesEl sc) @ new"
    and n: "list_all2 (\<lambda>sh E. renderShape ts k2p st sh (brushes (drawable st))
                              (arrowDests_of (drawable st)) (dom_bounds st) = Inr E)
          (fresh_shapes ts st (shapesEl sc)) new"
    by blast
  have a: "list_all2 (\<lambda>sh E. is_arrow (shape sh) \<longrightarrow>
            arrow_drawn k2p st (shape sh) E
              (merge_margin (drawable st) (shape sh) (isCurrent sh)))
          (fresh_shapes ts st (shapesEl sc)) new"
    using n by (rule list_all2_mono) (simp add: renderShape_arrow_drawn)
  show ?thesis
  proof (intro exI conjI)
    show "shapesEl sc' =
        filter (\<lambda>el. getAttribute el ''cgHash''
                  \<in> set (map (\<lambda>sh. Some [Txt (hash sh)])
                       (filter (\<lambda>sh. \<not> is_custom sh) (pass_shapes ts (drawable st) (dom_bounds st)))))
          (shapesEl sc) @ new"
      by (rule l)
    show "set (filter (\<lambda>el. getAttribute el ''cgHash''
                  \<in> set (map (\<lambda>sh. Some [Txt (hash sh)])
                       (filter (\<lambda>sh. \<not> is_custom sh) (pass_shapes ts (drawable st) (dom_bounds st)))))
          (shapesEl sc)) \<subseteq> set (shapesEl sc)"
      by simp
    show "list_all2 (\<lambda>sh E. is_arrow (shape sh) \<longrightarrow>
            arrow_drawn k2p st (shape sh) E
              (merge_margin (drawable st) (shape sh) (isCurrent sh)))
          (fresh_shapes ts st (shapesEl sc)) new"
      by (rule a)
  qed
qed

lemma layer_first:
  assumes "renderSvg ts k2p (st, sc) = Inr (st', sc')"
    and "fullHash ts (drawable st) (dom_bounds st) \<noteq> prevSvgHash (drawable st)"
    and "shapesEl sc = []"
  shows "list_all2 (\<lambda>p E. \<exists>h. renderShape ts k2p st \<lparr> shape = fst p, isCurrent = snd p, hash = h \<rparr>
                 (brushes (drawable st)) (arrowDests_of (drawable st)) (dom_bounds st) = Inr E
               \<and> h = shapeHash ts (fst p) (arrowDests_of (drawable st)) (snd p) (dom_bounds st))
          (filter (\<lambda>p. present (customSvg (fst p)) = None) (pass_list (drawable st)))
          (shapesEl sc')"
proof -
  from renderSvg_layer [OF assms(1,2)] assms(3) have
    n: "list_all2 (\<lambda>sh E. renderShape ts k2p st sh (brushes (drawable st))
                              (arrowDests_of (drawable st)) (dom_bounds st) = Inr E)
          (fresh_shapes ts st []) (shapesEl sc')"
    by auto
  have h: "\<forall>sh \<in> set (fresh_shapes ts st []).
      hash sh = shapeHash ts (shape sh) (arrowDests_of (drawable st)) (isCurrent sh) (dom_bounds st)"
    by (auto simp: fresh_shapes_def pass_shapes_def)
  have "list_all2 (\<lambda>sh E. \<exists>h. renderShape ts k2p st
                 \<lparr> shape = fst (shape sh, isCurrent sh), isCurrent = snd (shape sh, isCurrent sh), hash = h \<rparr>
                 (brushes (drawable st)) (arrowDests_of (drawable st)) (dom_bounds st) = Inr E
               \<and> h = shapeHash ts (fst (shape sh, isCurrent sh)) (arrowDests_of (drawable st))
                       (snd (shape sh, isCurrent sh)) (dom_bounds st))
          (fresh_shapes ts st []) (shapesEl sc')"
    using n
  proof (rule list.rel_mono_strong)
    fix sh E
    assume "sh \<in> set (fresh_shapes ts st [])"
      and "E \<in> set (shapesEl sc')"
      and "renderShape ts k2p st sh (brushes (drawable st))
             (arrowDests_of (drawable st)) (dom_bounds st) = Inr E"
    with h show "\<exists>h. renderShape ts k2p st
                 \<lparr> shape = fst (shape sh, isCurrent sh), isCurrent = snd (shape sh, isCurrent sh), hash = h \<rparr>
                 (brushes (drawable st)) (arrowDests_of (drawable st)) (dom_bounds st) = Inr E
               \<and> h = shapeHash ts (fst (shape sh, isCurrent sh)) (arrowDests_of (drawable st))
                       (snd (shape sh, isCurrent sh)) (dom_bounds st)"
      by (intro exI [of _ "hash sh"]) (cases sh, auto)
  qed
  then have "list_all2 (\<lambda>p E. \<exists>h. renderShape ts k2p st \<lparr> shape = fst p, isCurrent = snd p, hash = h \<rparr>
                 (brushes (drawable st)) (arrowDests_of (drawable st)) (dom_bounds st) = Inr E
               \<and> h = shapeHash ts (fst p) (arrowDests_of (drawable st)) (snd p) (dom_bounds st))
          (map (\<lambda>sh. (shape sh, isCurrent sh)) (fresh_shapes ts st [])) (shapesEl sc')"
    by (simp only: list_all2_map1)
  then show ?thesis
    by (simp only: fresh_empty)
qed

lemma layer_first_arrows:
  assumes "renderSvg ts k2p (st, sc) = Inr (st', sc')"
    and "fullHash ts (drawable st) (dom_bounds st) \<noteq> prevSvgHash (drawable st)"
    and "shapesEl sc = []"
  shows "list_all2 (\<lambda>p E. is_arrow (fst p) \<longrightarrow>
            arrow_drawn k2p st (fst p) E (merge_margin (drawable st) (fst p) (snd p)))
          (filter (\<lambda>p. present (customSvg (fst p)) = None) (pass_list (drawable st)))
          (shapesEl sc')"
  using layer_first [OF assms]
proof (rule list_all2_mono)
  fix p E
  assume "\<exists>h. renderShape ts k2p st \<lparr> shape = fst p, isCurrent = snd p, hash = h \<rparr>
                 (brushes (drawable st)) (arrowDests_of (drawable st)) (dom_bounds st) = Inr E
               \<and> h = shapeHash ts (fst p) (arrowDests_of (drawable st)) (snd p) (dom_bounds st)"
  then obtain h where r: "renderShape ts k2p st \<lparr> shape = fst p, isCurrent = snd p, hash = h \<rparr>
                 (brushes (drawable st)) (arrowDests_of (drawable st)) (dom_bounds st) = Inr E"
    by blast
  show "is_arrow (fst p) \<longrightarrow>
            arrow_drawn k2p st (fst p) E (merge_margin (drawable st) (fst p) (snd p))"
  proof
    assume "is_arrow (fst p)"
    then have a: "is_arrow (shape \<lparr> shape = fst p, isCurrent = snd p, hash = h \<rparr>)" by simp
    from renderShape_arrow_drawn [OF a r, THEN conjunct1]
    show "arrow_drawn k2p st (fst p) E (merge_margin (drawable st) (fst p) (snd p))" by simp
  qed
qed

text \<open>
  C1. The shapes of a pass are the persisted ones and the auto shapes without a piece,
  not live, and the shape being drawn, live. \<open>renderSvg\<close> returns when the catalog has
  the brush of every shape of the pass. After a pass that is not skipped, the layer of
  shapes holds children it had before, followed by one new element for each shape that the
  pass renders, in order; the new element of a shape that is an arrow shows the arrow with
  margin 20/64 when more than one shape of the pass has its destination and the shape is
  not live, and with margin 10/64 otherwise. On an empty layer, three arrows with one
  destination and none live are all drawn with margin 20/64; with the third one live, the
  live one is drawn with margin 10/64 and the other two with 20/64.
\<close>

theorem merge_margin_rule:
  "map (\<lambda>sh. (shape sh, isCurrent sh)) (pass_shapes ts (drawable st) (dom_bounds st))
     = pass_list (drawable st)
   \<and> ((\<forall>p \<in> set (pass_list (drawable st)). brushes (drawable st) (brush (fst p)) \<noteq> None) \<longrightarrow>
        \<not> isl (renderSvg ts k2p (st, sc)))
   \<and> (renderSvg ts k2p (st, sc) = Inr (st', sc')
       \<and> fullHash ts (drawable st) (dom_bounds st) \<noteq> prevSvgHash (drawable st) \<longrightarrow>
        (\<exists>kept new. shapesEl sc' = kept @ new \<and> set kept \<subseteq> set (shapesEl sc)
           \<and> list_all2 (\<lambda>sh E. is_arrow (shape sh) \<longrightarrow>
                 arrow_drawn k2p st (shape sh) E
                   (merge_margin (drawable st) (shape sh) (isCurrent sh)))
               (fresh_shapes ts st (shapesEl sc)) new))
   \<and> (renderSvg ts k2p (st, sc) = Inr (st', sc')
       \<and> fullHash ts (drawable st) (dom_bounds st) \<noteq> prevSvgHash (drawable st)
       \<and> shapesEl sc = [] \<and> filter (\<lambda>a. piece a = None) (autoShapes (drawable st)) = []
       \<and> is_arrow s1 \<and> is_arrow s2 \<and> is_arrow s3 \<and> dest s2 = dest s1 \<and> dest s3 = dest s1 \<longrightarrow>
        (shapes (drawable st) = [s1, s2, s3] \<and> cur_list (drawable st) = [] \<longrightarrow>
           list_all2 (\<lambda>s E. arrow_drawn k2p st s E (20 / 64)) [s1, s2, s3] (shapesEl sc'))
        \<and> (shapes (drawable st) = [s1, s2] \<and> cur_list (drawable st) = [s3] \<longrightarrow>
           list_all2 (\<lambda>p E. arrow_drawn k2p st (fst p) E (snd p))
             [(s1, 20 / 64), (s2, 20 / 64), (s3, 10 / 64)] (shapesEl sc')))"
proof -
  have general: "\<exists>kept new. shapesEl sc' = kept @ new \<and> set kept \<subseteq> set (shapesEl sc)
           \<and> list_all2 (\<lambda>sh E. is_arrow (shape sh) \<longrightarrow>
                 arrow_drawn k2p st (shape sh) E
                   (merge_margin (drawable st) (shape sh) (isCurrent sh)))
               (fresh_shapes ts st (shapesEl sc)) new"
    if "renderSvg ts k2p (st, sc) = Inr (st', sc')"
      "fullHash ts (drawable st) (dom_bounds st) \<noteq> prevSvgHash (drawable st)"
    using that by (rule layer_arrows)
  have scen: "(shapes (drawable st) = [s1, s2, s3] \<and> cur_list (drawable st) = [] \<longrightarrow>
           list_all2 (\<lambda>s E. arrow_drawn k2p st s E (20 / 64)) [s1, s2, s3] (shapesEl sc'))
        \<and> (shapes (drawable st) = [s1, s2] \<and> cur_list (drawable st) = [s3] \<longrightarrow>
           list_all2 (\<lambda>p E. arrow_drawn k2p st (fst p) E (snd p))
             [(s1, 20 / 64), (s2, 20 / 64), (s3, 10 / 64)] (shapesEl sc'))"
    if r: "renderSvg ts k2p (st, sc) = Inr (st', sc')"
      "fullHash ts (drawable st) (dom_bounds st) \<noteq> prevSvgHash (drawable st)"
      "shapesEl sc = []"
      and au: "filter (\<lambda>a. piece a = None) (autoShapes (drawable st)) = []"
      and ar: "is_arrow s1" "is_arrow s2" "is_arrow s3"
      and de: "dest s2 = dest s1" "dest s3 = dest s1"
  proof -
    note l = layer_first_arrows [OF r]
    from ar have c: "present (customSvg s1) = None" "present (customSvg s2) = None"
        "present (customSvg s3) = None"
      by (simp_all add: is_arrow_def)
    from ar(1) obtain k where k: "dest s1 = Some k" by (auto simp: is_arrow_def split: option.splits)
    show ?thesis
    proof (intro conjI impI)
      assume "shapes (drawable st) = [s1, s2, s3] \<and> cur_list (drawable st) = []"
      then have p: "pass_list (drawable st) = [(s1, False), (s2, False), (s3, False)]"
        by (simp add: pass_list_def au)
      have m: "merge_margin (drawable st) s False = 20 / 64" if "dest s = Some k" for s
        using that by (simp add: merge_margin_def sharing_def p k de)
      from l show "list_all2 (\<lambda>s E. arrow_drawn k2p st s E (20 / 64)) [s1, s2, s3] (shapesEl sc')"
        unfolding p by (auto simp: c ar m k de list_all2_Cons1)
    next
      assume "shapes (drawable st) = [s1, s2] \<and> cur_list (drawable st) = [s3]"
      then have p: "pass_list (drawable st) = [(s1, False), (s2, False), (s3, True)]"
        by (simp add: pass_list_def au)
      have m: "merge_margin (drawable st) s False = 20 / 64"
          "merge_margin (drawable st) s True = 10 / 64" if "dest s = Some k" for s
        using that by (simp_all add: merge_margin_def sharing_def p k de)
      from l show "list_all2 (\<lambda>p E. arrow_drawn k2p st (fst p) E (snd p))
             [(s1, 20 / 64), (s2, 20 / 64), (s3, 10 / 64)] (shapesEl sc')"
        unfolding p by (auto simp: c ar m k de list_all2_Cons1)
    qed
  qed
  show ?thesis
    using pass_pairs [of ts "drawable st" "dom_bounds st"] renderSvg_returns [of st ts k2p sc]
      general scen
    by (intro conjI impI) blast+
qed

lemma sqrt_examples: "sqrt 25 = 5" "sqrt 9 = 3" "sqrt 16 = 4"
  by (rule real_sqrt_unique, simp, simp)+

lemma merge_state_hash:
  "fullHash int_text (drawable merge_state) (dom_bounds merge_state)
     = ''512,512,a1,e4,green,true;512,512,e1,e4,green,true;512,512,e8,e4,green,true''"
  by (simp add: merge_state_def fullHash_def pass_shapes_def drawable_of_def arrow_to_def
      nonPieceAutoShapes_def cur_list_def current_shape_def shapeHash_def hash_entries_def
      filter_join_def board_def int_text_def dec_nat.simps digit_def opt_str_def arrowDests_of_def
      count_dest_def present_def dest_count_def)

lemma live_state_hash:
  "fullHash int_text (drawable live_state) (dom_bounds live_state)
     = ''512,512,a1,e4,green,true;512,512,e1,e4,green,true;512,512,true,e8,e4,green,true''"
  by (simp add: live_state_def fullHash_def pass_shapes_def drawable_of_def arrow_to_def
      nonPieceAutoShapes_def cur_list_def current_shape_def shapeHash_def hash_entries_def
      filter_join_def board_def int_text_def dec_nat.simps digit_def opt_str_def arrowDests_of_def
      count_dest_def present_def dest_count_def)

theorem merge_margin_rule_witness:
  "map (\<lambda>E. map (\<lambda>r. getAttribute r ''width'') (tagged ''rect'' E))
       (shapesEl (snd (projr (renderSvg int_text square_pos (merge_state, empty_scene)))))
     = [[Some [Num (5 - 20 / 64)]], [Some [Num (3 - 20 / 64)]], [Some [Num (4 - 20 / 64)]]]
   \<and> map (\<lambda>E. map (\<lambda>r. getAttribute r ''width'') (tagged ''rect'' E))
       (shapesEl (snd (projr (renderSvg int_text square_pos (live_state, empty_scene)))))
     = [[Some [Num (5 - 20 / 64)]], [Some [Num (3 - 20 / 64)]], [Some [Num (4 - 10 / 64)]]]"
proof -
  let ?a = "arrow_to ''a1'' ''e4''" and ?b = "arrow_to ''e1'' ''e4''" and ?c = "arrow_to ''e8'' ''e4''"
  let ?R = "renderSvg int_text square_pos (merge_state, empty_scene)"
  let ?L = "renderSvg int_text square_pos (live_state, empty_scene)"
  note t = merge_margin_rule [where ts = int_text and ?k2p = square_pos and ?s1.0 = ?a
      and ?s2.0 = ?b and ?s3.0 = ?c and sc = empty_scene]
  have arrows: "is_arrow ?a" "is_arrow ?b" "is_arrow ?c" "dest ?b = dest ?a" "dest ?c = dest ?a"
    by (simp_all add: is_arrow_def arrow_to_def present_def)
  have width: "map (\<lambda>r. getAttribute r ''width'') (tagged ''rect'' E)
      = [Some [num_frag (shaft_length (square_pos (orig s)) (square_pos ''e4'') board M)]]"
    if "arrow_drawn square_pos st s E M" "dest s = Some ''e4''" "orientation st = White"
      "dom_bounds st = board" "modifiers s = None" for st s E M
    using that by (simp add: arrow_drawn_def drawn_with_margin_def orient_def wants_hilite_def)
  have len: "shaft_length (square_pos ''a1'') (square_pos ''e4'') board M = Some (5 - M)"
    "shaft_length (square_pos ''e1'') (square_pos ''e4'') board M = Some (3 - M)"
    "shaft_length (square_pos ''e8'') (square_pos ''e4'') board M = Some (4 - M)" for M
    by (simp_all add: shaft_length_def square_pos_def pos2user_def min1_ratio_def board_def
        sqrt_examples)
  have first: "map (\<lambda>E. map (\<lambda>r. getAttribute r ''width'') (tagged ''rect'' E))
       (shapesEl (snd (projr ?R)))
     = [[Some [Num (5 - 20 / 64)]], [Some [Num (3 - 20 / 64)]], [Some [Num (4 - 20 / 64)]]]"
  proof -
    have cat: "\<forall>p \<in> set (pass_list (drawable merge_state)).
        brushes (drawable merge_state) (brush (fst p)) \<noteq> None"
      by (simp add: pass_list_def merge_state_def drawable_of_def arrow_to_def cur_list_def
          current_shape_def)
    have "\<not> isl ?R"
      by (rule t [where st = merge_state, THEN conjunct2, THEN conjunct1, THEN mp, OF cat])
    then have "Inr (projr ?R) = ?R" by (rule sum.collapse(2))
    then have r: "?R = Inr (fst (projr ?R), snd (projr ?R))" by (simp only: prod.collapse)
    have h: "fullHash int_text (drawable merge_state) (dom_bounds merge_state)
        \<noteq> prevSvgHash (drawable merge_state)"
      unfolding merge_state_hash by (simp add: merge_state_def drawable_of_def)
    have e: "shapesEl empty_scene = []"
      "filter (\<lambda>a. piece a = None) (autoShapes (drawable merge_state)) = []"
      by (simp_all add: empty_scene_def merge_state_def drawable_of_def)
    have s: "shapes (drawable merge_state) = [?a, ?b, ?c] \<and> cur_list (drawable merge_state) = []"
      by (simp add: merge_state_def drawable_of_def cur_list_def current_shape_def)
    from r h e arrows have hyp: "?R = Inr (fst (projr ?R), snd (projr ?R))
       \<and> fullHash int_text (drawable merge_state) (dom_bounds merge_state)
           \<noteq> prevSvgHash (drawable merge_state)
       \<and> shapesEl empty_scene = []
       \<and> filter (\<lambda>a. piece a = None) (autoShapes (drawable merge_state)) = []
       \<and> is_arrow ?a \<and> is_arrow ?b \<and> is_arrow ?c \<and> dest ?b = dest ?a \<and> dest ?c = dest ?a"
      by (intro conjI)
    note l = t [where st = merge_state, THEN conjunct2, THEN conjunct2, THEN conjunct2,
        THEN mp, OF hyp, THEN conjunct1, THEN mp, OF s]
    from l obtain E1 E2 E3 where E: "shapesEl (snd (projr ?R)) = [E1, E2, E3]"
      and d: "arrow_drawn square_pos merge_state ?a E1 (20 / 64)"
        "arrow_drawn square_pos merge_state ?b E2 (20 / 64)"
        "arrow_drawn square_pos merge_state ?c E3 (20 / 64)"
      by (auto simp: list_all2_Cons1)
    have st: "orientation merge_state = White" "dom_bounds merge_state = board"
      by (simp_all add: merge_state_def)
    show ?thesis
      unfolding E
      using width [OF d(1) _ st] width [OF d(2) _ st] width [OF d(3) _ st]
      by (simp add: arrow_to_def len num_frag_def)
  qed
  have second: "map (\<lambda>E. map (\<lambda>r. getAttribute r ''width'') (tagged ''rect'' E))
       (shapesEl (snd (projr ?L)))
     = [[Some [Num (5 - 20 / 64)]], [Some [Num (3 - 20 / 64)]], [Some [Num (4 - 10 / 64)]]]"
  proof -
    have cat: "\<forall>p \<in> set (pass_list (drawable live_state)).
        brushes (drawable live_state) (brush (fst p)) \<noteq> None"
      by (simp add: pass_list_def live_state_def drawable_of_def arrow_to_def cur_list_def
          current_shape_def present_def)
    have "\<not> isl ?L"
      by (rule t [where st = live_state, THEN conjunct2, THEN conjunct1, THEN mp, OF cat])
    then have "Inr (projr ?L) = ?L" by (rule sum.collapse(2))
    then have r: "?L = Inr (fst (projr ?L), snd (projr ?L))" by (simp only: prod.collapse)
    have h: "fullHash int_text (drawable live_state) (dom_bounds live_state)
        \<noteq> prevSvgHash (drawable live_state)"
      unfolding live_state_hash by (simp add: live_state_def drawable_of_def)
    have e: "shapesEl empty_scene = []"
      "filter (\<lambda>a. piece a = None) (autoShapes (drawable live_state)) = []"
      by (simp_all add: empty_scene_def live_state_def drawable_of_def)
    have s: "shapes (drawable live_state) = [?a, ?b] \<and> cur_list (drawable live_state) = [?c]"
      by (simp add: live_state_def drawable_of_def cur_list_def current_shape_def present_def)
    from r h e arrows have hyp: "?L = Inr (fst (projr ?L), snd (projr ?L))
       \<and> fullHash int_text (drawable live_state) (dom_bounds live_state)
           \<noteq> prevSvgHash (drawable live_state)
       \<and> shapesEl empty_scene = []
       \<and> filter (\<lambda>a. piece a = None) (autoShapes (drawable live_state)) = []
       \<and> is_arrow ?a \<and> is_arrow ?b \<and> is_arrow ?c \<and> dest ?b = dest ?a \<and> dest ?c = dest ?a"
      by (intro conjI)
    note l = t [where st = live_state, THEN conjunct2, THEN conjunct2, THEN conjunct2,
        THEN mp, OF hyp, THEN conjunct2, THEN mp, OF s]
    from l obtain E1 E2 E3 where E: "shapesEl (snd (projr ?L)) = [E1, E2, E3]"
      and d: "arrow_drawn square_pos live_state ?a E1 (20 / 64)"
        "arrow_drawn square_pos live_state ?b E2 (20 / 64)"
        "arrow_drawn square_pos live_state ?c E3 (10 / 64)"
      by (auto simp: list_all2_Cons1)
    have st: "orientation live_state = White" "dom_bounds live_state = board"
      by (simp_all add: live_state_def)
    show ?thesis
      unfolding E
      using width [OF d(1) _ st] width [OF d(2) _ st] width [OF d(3) _ st]
      by (simp add: arrow_to_def len num_frag_def)
  qed
  from first second show ?thesis
    by (intro conjI)
qed

lemma degenerate_square: "degenerate s \<Longrightarrow> is_square s"
  by (simp add: degenerate_def is_square_def)

lemma layer_hash:
  assumes "renderShape ts k2p st \<lparr> shape = s, isCurrent = c, hash = h \<rparr> brs ad bnds = Inr E"
    and "is_arrow s"
  shows "getAttribute E ''cgHash'' = Some [Txt h]"
proof -
  from assms(2) have a: "is_arrow (shape \<lparr> shape = s, isCurrent = c, hash = h \<rparr>)" by simp
  from assms(2) obtain k where k: "dest s = Some k" "k \<noteq> []" "k \<noteq> orig s"
    and cu: "present (customSvg s) = None"
    by (auto simp: is_arrow_def split: option.splits)
  from assms(1) show ?thesis
    unfolding renderShape_arrow_case [of "\<lparr> shape = s, isCurrent = c, hash = h \<rparr>" k, simplified, OF cu k]
    by (auto simp: arrow_hash split: option.splits)
qed

text \<open>
  C10. A shape whose destination is its origin, without custom content, is rendered as a
  square highlight, not as an arrow, whenever the catalog has its brush; its destination
  is still counted in the tally. So when the pass holds one arrow to a square and one such
  shape on that square, two shapes share the square where one would without the shape:
  the pass draws the arrow, which is not live, with margin 20/64 and the shape as a square,
  and without the shape it draws the arrow with margin 10/64; the fingerprints that the two
  elements of the arrow carry differ.
\<close>

theorem degenerate_shape_counts:
  "(degenerate (shape sh) \<and> brs (brush (shape sh)) = Some b \<longrightarrow>
      (\<exists>E. renderShape ts k2p st sh brs ad bnds = Inr E
         \<and> square_drawn E b (orient (k2p (orig (shape sh))) (orientation st)) (isCurrent sh) bnds
         \<and> getAttribute E ''cgHash'' = Some [Txt (hash sh)]))
   \<and> (k \<noteq> [] \<and> dest q = Some k \<and> orig q = k \<longrightarrow>
        dest_count (count_dest ad q) k = dest_count ad k + 1)
   \<and> (k \<noteq> [] \<and> is_arrow a \<and> dest a = Some k \<and> degenerate q \<and> orig q = k
       \<and> shapes (drawable st) = [a, q]
       \<and> filter (\<lambda>a. piece a = None) (autoShapes (drawable st)) = []
       \<and> cur_list (drawable st) = []
       \<and> brushes (drawable st) (brush a) \<noteq> None \<and> brushes (drawable st) (brush q) = Some bq
       \<and> shapesEl sc = []
       \<and> fullHash ts (drawable st) (dom_bounds st) \<noteq> prevSvgHash (drawable st)
       \<and> st0 = st\<lparr> drawable := (drawable st)\<lparr> shapes := [a] \<rparr> \<rparr>
       \<and> fullHash ts (drawable st0) (dom_bounds st0) \<noteq> prevSvgHash (drawable st0) \<longrightarrow>
        sharing (drawable st) k = 2 \<and> sharing (drawable st0) k = 1
        \<and> (\<exists>st' sc' st0' sc0' Ea Eq Ea0.
              renderSvg ts k2p (st, sc) = Inr (st', sc')
            \<and> renderSvg ts k2p (st0, sc) = Inr (st0', sc0')
            \<and> shapesEl sc' = [Ea, Eq] \<and> shapesEl sc0' = [Ea0]
            \<and> arrow_drawn k2p st a Ea (20 / 64) \<and> arrow_drawn k2p st a Ea0 (10 / 64)
            \<and> square_drawn Eq bq (orient (k2p k) (orientation st)) False (dom_bounds st)
            \<and> getAttribute Ea ''cgHash'' \<noteq> getAttribute Ea0 ''cgHash''))"
proof -
  have square: "\<exists>E. renderShape ts k2p st sh brs ad bnds = Inr E
         \<and> square_drawn E b (orient (k2p (orig (shape sh))) (orientation st)) (isCurrent sh) bnds
         \<and> getAttribute E ''cgHash'' = Some [Txt (hash sh)]"
    if "degenerate (shape sh)" "brs (brush (shape sh)) = Some b" for sh brs b ts k2p st ad bnds
    using that
    by (simp add: renderShape_square_case [OF degenerate_square] square_drawn_render square_hash)
  have counted: "dest_count (count_dest ad q) k = dest_count ad k + 1"
    if "k \<noteq> []" "dest q = Some k"
    using that by (simp add: dest_count_count_dest present_eq_Some)
  have scen: "sharing (drawable st) k = 2 \<and> sharing (drawable st0) k = 1
        \<and> (\<exists>st' sc' st0' sc0' Ea Eq Ea0.
              renderSvg ts k2p (st, sc) = Inr (st', sc')
            \<and> renderSvg ts k2p (st0, sc) = Inr (st0', sc0')
            \<and> shapesEl sc' = [Ea, Eq] \<and> shapesEl sc0' = [Ea0]
            \<and> arrow_drawn k2p st a Ea (20 / 64) \<and> arrow_drawn k2p st a Ea0 (10 / 64)
            \<and> square_drawn Eq bq (orient (k2p k) (orientation st)) False (dom_bounds st)
            \<and> getAttribute Ea ''cgHash'' \<noteq> getAttribute Ea0 ''cgHash'')"
    if k: "k \<noteq> []" and a: "is_arrow a" "dest a = Some k" and q: "degenerate q" "orig q = k"
      and sh: "shapes (drawable st) = [a, q]"
        "filter (\<lambda>a. piece a = None) (autoShapes (drawable st)) = []"
        "cur_list (drawable st) = []"
      and br: "brushes (drawable st) (brush a) \<noteq> None" "brushes (drawable st) (brush q) = Some bq"
      and em: "shapesEl sc = []"
      and h: "fullHash ts (drawable st) (dom_bounds st) \<noteq> prevSvgHash (drawable st)"
      and st0: "st0 = st\<lparr> drawable := (drawable st)\<lparr> shapes := [a] \<rparr> \<rparr>"
      and h0: "fullHash ts (drawable st0) (dom_bounds st0) \<noteq> prevSvgHash (drawable st0)"
  proof -
    from q have dq: "dest q = Some k" and cq: "present (customSvg q) = None"
      by (simp_all add: degenerate_def)
    from a have ca: "present (customSvg a) = None" by (simp add: is_arrow_def)
    have f0: "orientation st0 = orientation st" "dom_bounds st0 = dom_bounds st"
      "brushes (drawable st0) = brushes (drawable st)"
      by (simp_all add: st0)
    have cur0: "cur_list ((drawable st)\<lparr> shapes := [a] \<rparr>) = []"
      using sh(3) by (simp add: cur_list_def current_shape_def)
    have p: "pass_list (drawable st) = [(a, False), (q, False)]"
      by (simp add: pass_list_def sh)
    have p0: "pass_list (drawable st0) = [(a, False)]"
      by (simp add: pass_list_def st0 sh cur0)
    have two: "sharing (drawable st) k = 2" and one: "sharing (drawable st0) k = 1"
      by (simp_all add: sharing_def p p0 a dq)
    have m: "merge_margin (drawable st) a False = 20 / 64"
      "merge_margin (drawable st0) a False = 10 / 64"
      by (simp_all add: merge_margin_def a two one)
    have "\<not> isl (renderSvg ts k2p (st, sc))"
      using br by (intro renderSvg_returns) (auto simp: p)
    then obtain r where "renderSvg ts k2p (st, sc) = Inr r" using not_isl by blast
    then have r: "renderSvg ts k2p (st, sc) = Inr (fst r, snd r)" by simp
    have "\<not> isl (renderSvg ts k2p (st0, sc))"
      using br by (intro renderSvg_returns) (auto simp: p0 f0)
    then obtain r0 where "renderSvg ts k2p (st0, sc) = Inr r0" using not_isl by blast
    then have r0: "renderSvg ts k2p (st0, sc) = Inr (fst r0, snd r0)" by simp
    let ?ha = "shapeHash ts a (arrowDests_of (drawable st)) False (dom_bounds st)"
    let ?hq = "shapeHash ts q (arrowDests_of (drawable st)) False (dom_bounds st)"
    let ?h0 = "shapeHash ts a (arrowDests_of (drawable st0)) False (dom_bounds st)"
    from layer_first [OF r h em] obtain Ea Eq where
      l: "shapesEl (snd r) = [Ea, Eq]"
      and ra: "renderShape ts k2p st \<lparr> shape = a, isCurrent = False, hash = ?ha \<rparr>
                 (brushes (drawable st)) (arrowDests_of (drawable st)) (dom_bounds st) = Inr Ea"
      and rq: "renderShape ts k2p st \<lparr> shape = q, isCurrent = False, hash = ?hq \<rparr>
                 (brushes (drawable st)) (arrowDests_of (drawable st)) (dom_bounds st) = Inr Eq"
      unfolding p by (auto simp: ca cq list_all2_Cons1)
    from layer_first [OF r0 h0 em] obtain Ea0 where
      l0: "shapesEl (snd r0) = [Ea0]"
      and ra0: "renderShape ts k2p st0 \<lparr> shape = a, isCurrent = False, hash = ?h0 \<rparr>
                 (brushes (drawable st)) (arrowDests_of (drawable st0)) (dom_bounds st0) = Inr Ea0"
      unfolding p0 by (auto simp: ca f0 list_all2_Cons1)
    have da: "arrow_drawn k2p st a Ea (20 / 64)"
      using renderShape_arrow_drawn [OF _ ra, THEN conjunct1] a(1) by (simp add: m)
    have "arrow_drawn k2p st0 a Ea0 (10 / 64)"
      using renderShape_arrow_drawn [OF _ ra0, THEN conjunct1] a(1) by (simp add: m)
    then have da0: "arrow_drawn k2p st a Ea0 (10 / 64)"
      unfolding arrow_drawn_def f0 .
    have "is_square (shape \<lparr> shape = q, isCurrent = False, hash = ?hq \<rparr>)"
      using q(1) by (simp add: degenerate_square)
    from rq [unfolded renderShape_square_case [OF this]]
    have sq: "square_drawn Eq bq (orient (k2p k) (orientation st)) False (dom_bounds st)"
      using square_drawn_render [of bq "orient (k2p k) (orientation st)" False "dom_bounds st" "[Txt ?hq]"]
      by (auto simp: br q)
    have ha: "getAttribute Ea ''cgHash'' = Some [Txt ?ha]"
      using ra a(1) by (rule layer_hash)
    have ha0: "getAttribute Ea0 ''cgHash'' = Some [Txt ?h0]"
      using ra0 a(1) by (rule layer_hash)
    have "present (dest a) = Some k" using a k by (simp add: present_eq_Some)
    then have "?ha \<noteq> ?h0"
      by (rule hash_shared_differs) (simp add: sharing_count [OF k] two one)
    with ha ha0 have ne: "getAttribute Ea ''cgHash'' \<noteq> getAttribute Ea0 ''cgHash''" by simp
    show ?thesis
    proof (intro conjI exI)
      show "renderSvg ts k2p (st, sc) = Inr (fst r, snd r)" by (rule r)
      show "renderSvg ts k2p (st0, sc) = Inr (fst r0, snd r0)" by (rule r0)
    qed (rule two one l l0 da da0 sq ne)+
  qed
  show ?thesis
    using square [of sh brs b ts k2p st ad bnds] counted scen
    by (intro conjI impI) blast+
qed

lemma degenerate_state_hash:
  "fullHash int_text (drawable degenerate_state) (dom_bounds degenerate_state)
     = ''512,512,a1,e4,green,true;512,512,e4,e4,green,true''"
  by (simp add: degenerate_state_def fullHash_def pass_shapes_def drawable_of_def arrow_to_def
      nonPieceAutoShapes_def cur_list_def current_shape_def shapeHash_def hash_entries_def
      filter_join_def board_def int_text_def dec_nat.simps digit_def opt_str_def arrowDests_of_def
      count_dest_def present_def dest_count_def)

lemma lone_arrow_hash:
  "fullHash int_text
     (drawable (degenerate_state\<lparr> drawable := (drawable degenerate_state)\<lparr> shapes := [arrow_to ''a1'' ''e4''] \<rparr> \<rparr>))
     (dom_bounds (degenerate_state\<lparr> drawable := (drawable degenerate_state)\<lparr> shapes := [arrow_to ''a1'' ''e4''] \<rparr> \<rparr>))
     = ''512,512,a1,e4,green''"
  by (simp add: degenerate_state_def fullHash_def pass_shapes_def drawable_of_def arrow_to_def
      nonPieceAutoShapes_def cur_list_def current_shape_def shapeHash_def hash_entries_def
      filter_join_def board_def int_text_def dec_nat.simps digit_def opt_str_def arrowDests_of_def
      count_dest_def present_def dest_count_def)

theorem degenerate_shape_counts_witness:
  "map (\<lambda>E. map (\<lambda>r. getAttribute r ''width'') (tagged ''rect'' E))
       (shapesEl (snd (projr (renderSvg int_text square_pos (degenerate_state, empty_scene)))))
     = [[Some [Num (5 - 20 / 64)]], [Some [Num 1]]]
   \<and> map (\<lambda>E. length (tagged ''line'' E))
       (shapesEl (snd (projr (renderSvg int_text square_pos (degenerate_state, empty_scene)))))
     = [1, 0]
   \<and> map (\<lambda>E. map (\<lambda>r. getAttribute r ''width'') (tagged ''rect'' E))
       (shapesEl (snd (projr (renderSvg int_text square_pos
          (degenerate_state\<lparr> drawable := (drawable degenerate_state)\<lparr> shapes := [arrow_to ''a1'' ''e4''] \<rparr> \<rparr>,
           empty_scene)))))
     = [[Some [Num (5 - 10 / 64)]]]
   \<and> sharing (drawable degenerate_state) ''e4'' = 2"
proof -
  let ?a = "arrow_to ''a1'' ''e4''" and ?q = "arrow_to ''e4'' ''e4''"
  let ?lone = "degenerate_state\<lparr> drawable := (drawable degenerate_state)\<lparr> shapes := [?a] \<rparr> \<rparr>"
  let ?R = "renderSvg int_text square_pos (degenerate_state, empty_scene)"
  let ?Z = "renderSvg int_text square_pos (?lone, empty_scene)"
  have hyp: "''e4'' \<noteq> [] \<and> is_arrow ?a \<and> dest ?a = Some ''e4'' \<and> degenerate ?q \<and> orig ?q = ''e4''
       \<and> shapes (drawable degenerate_state) = [?a, ?q]
       \<and> filter (\<lambda>a. piece a = None) (autoShapes (drawable degenerate_state)) = []
       \<and> cur_list (drawable degenerate_state) = []
       \<and> brushes (drawable degenerate_state) (brush ?a) \<noteq> None
       \<and> brushes (drawable degenerate_state) (brush ?q) = Some green
       \<and> shapesEl empty_scene = []
       \<and> fullHash int_text (drawable degenerate_state) (dom_bounds degenerate_state)
           \<noteq> prevSvgHash (drawable degenerate_state)
       \<and> ?lone = degenerate_state\<lparr> drawable := (drawable degenerate_state)\<lparr> shapes := [?a] \<rparr> \<rparr>
       \<and> fullHash int_text (drawable ?lone) (dom_bounds ?lone) \<noteq> prevSvgHash (drawable ?lone)"
    unfolding degenerate_state_hash lone_arrow_hash
    by (simp add: is_arrow_def degenerate_def arrow_to_def present_def degenerate_state_def
        drawable_of_def cur_list_def current_shape_def empty_scene_def)
  note t = degenerate_shape_counts [where ts = int_text and ?k2p = square_pos
      and st = degenerate_state and sc = empty_scene and k = "''e4''" and a = ?a and q = ?q
      and bq = green and ?st0.0 = ?lone, THEN conjunct2, THEN conjunct2, THEN mp, OF hyp]
  from t obtain st' sc' st0' sc0' Ea Eq Ea0 where
    r: "?R = Inr (st', sc')" and r0: "?Z = Inr (st0', sc0')"
    and l: "shapesEl sc' = [Ea, Eq]" and l0: "shapesEl sc0' = [Ea0]"
    and da: "arrow_drawn square_pos degenerate_state ?a Ea (20 / 64)"
    and da0: "arrow_drawn square_pos degenerate_state ?a Ea0 (10 / 64)"
    and sq: "square_drawn Eq green (orient (square_pos ''e4'') (orientation degenerate_state)) False
        (dom_bounds degenerate_state)"
    by blast
  have len: "shaft_length (square_pos ''a1'') (square_pos ''e4'') board M = Some (5 - M)" for M
    by (simp add: shaft_length_def square_pos_def pos2user_def min1_ratio_def board_def
        sqrt_examples)
  have st: "orientation degenerate_state = White" "dom_bounds degenerate_state = board"
    by (simp_all add: degenerate_state_def)
  have wa: "map (\<lambda>r. getAttribute r ''width'') (tagged ''rect'' Ea) = [Some [Num (5 - 20 / 64)]]"
    and la: "length (tagged ''line'' Ea) = 1"
    using da length_map [of "\<lambda>l. (getAttribute l ''x2'', getAttribute l ''y2'')" "tagged ''line'' Ea"]
    by (simp_all add: arrow_drawn_def drawn_with_margin_def arrow_to_def wants_hilite_def st
        orient_def len num_frag_def)
  have wa0: "map (\<lambda>r. getAttribute r ''width'') (tagged ''rect'' Ea0) = [Some [Num (5 - 10 / 64)]]"
    using da0
    by (simp add: arrow_drawn_def drawn_with_margin_def arrow_to_def wants_hilite_def st
        orient_def len num_frag_def)
  have wq: "map (\<lambda>r. getAttribute r ''width'') (tagged ''rect'' Eq) = [Some [Num 1]]"
    and lq: "length (tagged ''line'' Eq) = 0"
    using sq by (simp_all add: square_drawn_def)
  have first: "map (\<lambda>E. map (\<lambda>r. getAttribute r ''width'') (tagged ''rect'' E))
       (shapesEl (snd (projr ?R))) = [[Some [Num (5 - 20 / 64)]], [Some [Num 1]]]"
    unfolding r by (simp add: l wa wq)
  have second: "map (\<lambda>E. length (tagged ''line'' E)) (shapesEl (snd (projr ?R))) = [1, 0]"
    unfolding r by (simp add: l la lq)
  have third: "map (\<lambda>E. map (\<lambda>r. getAttribute r ''width'') (tagged ''rect'' E))
       (shapesEl (snd (projr ?Z))) = [[Some [Num (5 - 10 / 64)]]]"
    unfolding r0 by (simp add: l0 wa0)
  from first second third t [THEN conjunct1] show ?thesis
    by (intro conjI)
qed

subsection \<open>What a fingerprint is sensitive to\<close>

lemma hash_eq_mid:
  assumes "hash_parts ts s ad cur b = pre @ m1 @ post"
    and "hash_parts ts s' ad' cur' b' = pre @ m2 @ post"
    and "solid m1" "solid m2" "solid post"
  shows "(shapeHash ts s ad cur b = shapeHash ts s' ad' cur' b') = (join '','' m1 = join '','' m2)"
  unfolding shapeHash_parts assms(1,2)
  by (rule join_cancel) (simp_all add: assms)

lemma join_str_part: "join sep (str_part t) = t"
  by (simp add: str_part_def)

lemma hash_live: "shapeHash ts s ad True b \<noteq> shapeHash ts s ad False b"
proof -
  have "(shapeHash ts s ad True b = shapeHash ts s ad False b)
      = (join '','' (flag_part True) = join '','' (flag_part False))"
    by (rule hash_eq_mid [where pre = "bounds_part ts b"
          and post = "str_part (orig s) @ dest_part (dest s) @ str_part (brush s)
            @ shared_part ad (dest s) @ piece_part ts (piece s)
            @ modifiers_part ts (modifiers s) @ custom_part (customSvg s)"])
       (simp_all add: hash_parts_def)
  then show ?thesis by (simp add: flag_part_def)
qed

lemma hash_orig:
  "(shapeHash ts (s\<lparr> orig := o1 \<rparr>) ad cur b = shapeHash ts (s\<lparr> orig := o2 \<rparr>) ad cur b) = (o1 = o2)"
proof -
  have "(shapeHash ts (s\<lparr> orig := o1 \<rparr>) ad cur b = shapeHash ts (s\<lparr> orig := o2 \<rparr>) ad cur b)
      = (join '','' (str_part o1) = join '','' (str_part o2))"
    by (rule hash_eq_mid [where pre = "bounds_part ts b @ flag_part cur"
          and post = "dest_part (dest s) @ str_part (brush s)
            @ shared_part ad (dest s) @ piece_part ts (piece s)
            @ modifiers_part ts (modifiers s) @ custom_part (customSvg s)"])
       (simp_all add: hash_parts_def)
  then show ?thesis by (simp add: join_str_part)
qed

lemma hash_brush:
  "(shapeHash ts (s\<lparr> brush := n1 \<rparr>) ad cur b = shapeHash ts (s\<lparr> brush := n2 \<rparr>) ad cur b) = (n1 = n2)"
proof -
  have "(shapeHash ts (s\<lparr> brush := n1 \<rparr>) ad cur b = shapeHash ts (s\<lparr> brush := n2 \<rparr>) ad cur b)
      = (join '','' (str_part n1) = join '','' (str_part n2))"
    by (rule hash_eq_mid [where pre = "bounds_part ts b @ flag_part cur @ str_part (orig s)
            @ dest_part (dest s)"
          and post = "shared_part ad (dest s) @ piece_part ts (piece s)
            @ modifiers_part ts (modifiers s) @ custom_part (customSvg s)"])
       (simp_all add: hash_parts_def)
  then show ?thesis by (simp add: join_str_part)
qed

lemma hash_modifiers:
  "(shapeHash ts (s\<lparr> modifiers := m1 \<rparr>) ad cur b = shapeHash ts (s\<lparr> modifiers := m2 \<rparr>) ad cur b)
     = (join '','' (modifiers_entries ts m1) = join '','' (modifiers_entries ts m2))"
proof -
  have "(shapeHash ts (s\<lparr> modifiers := m1 \<rparr>) ad cur b = shapeHash ts (s\<lparr> modifiers := m2 \<rparr>) ad cur b)
      = (join '','' (modifiers_part ts m1) = join '','' (modifiers_part ts m2))"
    by (rule hash_eq_mid [where pre = "bounds_part ts b @ flag_part cur @ str_part (orig s)
            @ dest_part (dest s) @ str_part (brush s) @ shared_part ad (dest s)
            @ piece_part ts (piece s)"
          and post = "custom_part (customSvg s)"])
       (simp_all add: hash_parts_def)
  then show ?thesis by (simp add: modifiers_part_def join_str_part)
qed

lemma dec_nat_nonempty: "dec_nat n \<noteq> []"
  by (subst dec_nat.simps) simp

lemma dec_nat_small: "n < 10 \<Longrightarrow> dec_nat n = [digit n]"
  by (subst dec_nat.simps) simp

lemma dec_nat_large: "\<not> n < 10 \<Longrightarrow> dec_nat n = dec_nat (n div 10) @ [digit (n mod 10)]"
  by (subst dec_nat.simps) simp

lemma digit_inj: "a < 10 \<Longrightarrow> b < 10 \<Longrightarrow> digit a = digit b \<Longrightarrow> a = b"
proof -
  have "inj_on digit (set [0..<10])"
    by (simp add: upt_rec digit_def)
  moreover assume "a < 10" "b < 10" "digit a = digit b"
  ultimately show "a = b"
    by (auto dest: inj_onD)
qed

lemma dec_nat_inj: "dec_nat n = dec_nat m \<Longrightarrow> n = m"
proof (induction n arbitrary: m rule: dec_nat.induct)
  case (1 n)
  show ?case
  proof (cases "n < 10")
    case True
    with "1.prems" have e: "[digit n] = dec_nat m" by (simp add: dec_nat_small)
    have "m < 10"
    proof (rule ccontr)
      assume "\<not> m < 10"
      with e have "[digit n] = dec_nat (m div 10) @ [digit (m mod 10)]"
        by (simp add: dec_nat_large)
      then show False using dec_nat_nonempty [of "m div 10"] by simp
    qed
    with e True show ?thesis by (simp add: dec_nat_small digit_inj)
  next
    case False
    with "1.prems" have e: "dec_nat (n div 10) @ [digit (n mod 10)] = dec_nat m"
      by (simp add: dec_nat_large)
    have m: "\<not> m < 10"
    proof
      assume "m < 10"
      with e have "dec_nat (n div 10) @ [digit (n mod 10)] = [digit m]"
        by (simp add: dec_nat_small)
      then show False using dec_nat_nonempty [of "n div 10"] by simp
    qed
    with e have "dec_nat (n div 10) = dec_nat (m div 10)" and d: "digit (n mod 10) = digit (m mod 10)"
      by (simp_all add: dec_nat_large)
    with "1.IH" False have "n div 10 = m div 10" by simp
    moreover from d have "n mod 10 = m mod 10" by (intro digit_inj) simp_all
    ultimately show ?thesis by (metis div_mult_mod_eq)
  qed
qed

lemma rolling31_nonneg: "0 \<le> h \<Longrightarrow> 0 \<le> rolling31 h s"
  by (induction s arbitrary: h) simp_all

lemma custom_part_eq:
  "(join '','' (custom_part c1) = join '','' (custom_part c2)) = (custom_hash c1 = custom_hash c2)"
proof -
  have "(nat (rolling31 0 x) = nat (rolling31 0 y)) = (rolling31 0 x = rolling31 0 y)" for x y
    using rolling31_nonneg [of 0 x] rolling31_nonneg [of 0 y] by auto
  then show ?thesis
    by (auto simp: custom_part_def custom_hash_def dest: dec_nat_inj split: option.splits)
qed

lemma hash_custom:
  "(shapeHash ts (s\<lparr> customSvg := c1 \<rparr>) ad cur b = shapeHash ts (s\<lparr> customSvg := c2 \<rparr>) ad cur b)
     = (custom_hash c1 = custom_hash c2)"
proof -
  have "(shapeHash ts (s\<lparr> customSvg := c1 \<rparr>) ad cur b = shapeHash ts (s\<lparr> customSvg := c2 \<rparr>) ad cur b)
      = (join '','' (custom_part c1) = join '','' (custom_part c2))"
    by (rule hash_eq_mid [where pre = "bounds_part ts b @ flag_part cur @ str_part (orig s)
            @ dest_part (dest s) @ str_part (brush s) @ shared_part ad (dest s)
            @ piece_part ts (piece s) @ modifiers_part ts (modifiers s)"
          and post = "[]"])
       (simp_all add: hash_parts_def)
  then show ?thesis by (simp only: custom_part_eq)
qed

lemma hash_bounds:
  assumes "solid (bounds_part ts b1)" "solid (bounds_part ts b2)"
  shows "(shapeHash ts s ad cur b1 = shapeHash ts s ad cur b2)
     = (join '','' (bounds_part ts b1) = join '','' (bounds_part ts b2))"
  by (rule hash_eq_mid [where pre = "[]"
          and post = "flag_part cur @ str_part (orig s) @ dest_part (dest s) @ str_part (brush s)
            @ shared_part ad (dest s) @ piece_part ts (piece s)
            @ modifiers_part ts (modifiers s) @ custom_part (customSvg s)"])
     (simp_all add: hash_parts_def assms)

lemma solid_Cons: "solid (x # xs) = (x \<noteq> [] \<and> solid xs)"
  by (auto simp: solid_def)

lemma comma_split:
  assumes "CHR '','' \<notin> set x" "CHR '','' \<notin> set y"
    and "x @ r1 = y @ r2"
    and "r1 = [] \<or> hd r1 = CHR '',''" "r2 = [] \<or> hd r2 = CHR '',''"
  shows "x = y"
proof -
  have t: "takeWhile (\<lambda>c. c \<noteq> CHR '','') (z @ r) = z"
    if "CHR '','' \<notin> set z" "r = [] \<or> hd r = CHR '',''" for z r
  proof (cases r)
    case Nil
    with that show ?thesis by (auto simp: takeWhile_eq_all_conv)
  next
    case (Cons c cs)
    with that have "c = CHR '',''" by simp
    with that(1) Cons show ?thesis by (auto simp: takeWhile_tail takeWhile_eq_all_conv)
  qed
  from assms(3) have "takeWhile (\<lambda>c. c \<noteq> CHR '','') (x @ r1) = takeWhile (\<lambda>c. c \<noteq> CHR '','') (y @ r2)"
    by simp
  then show ?thesis
    using t [OF assms(1,4)] t [OF assms(2,5)] by simp
qed

lemma join_head:
  "\<exists>r. join '','' (x # xs) = x @ r \<and> (r = [] \<or> hd r = CHR '','')"
  by (cases xs) simp_all

lemma plain_solid: "plain xs \<Longrightarrow> solid xs"
  by (auto simp: plain_def solid_def list_all_iff)

lemma join_inj: "plain xs \<Longrightarrow> plain ys \<Longrightarrow> join '','' xs = join '','' ys \<Longrightarrow> xs = ys"
proof (induction xs arbitrary: ys)
  case Nil
  then show ?case
    using join_empty_iff [OF plain_solid, of ys "'',''"] by simp
next
  case (Cons x xs)
  from Cons.prems have "ys \<noteq> []"
    using join_empty_iff [OF plain_solid, of "x # xs" "'',''"] by auto
  then obtain y ys' where ys: "ys = y # ys'" by (cases ys) auto
  from Cons.prems ys have px: "x \<noteq> []" "CHR '','' \<notin> set x" "plain xs"
    and py: "y \<noteq> []" "CHR '','' \<notin> set y" "plain ys'"
    by (simp_all add: plain_def)
  obtain r1 where r1: "join '','' (x # xs) = x @ r1" "r1 = [] \<or> hd r1 = CHR '',''"
    using join_head [of x xs] by auto
  obtain r2 where r2: "join '','' (y # ys') = y @ r2" "r2 = [] \<or> hd r2 = CHR '',''"
    using join_head [of y ys'] by auto
  from Cons.prems(3) ys r1(1) r2(1) have e: "x @ r1 = y @ r2" by simp
  from comma_split [OF px(2) py(2) e r1(2) r2(2)] have xy: "x = y" .
  with Cons.prems(3) ys have rest: "join '','' (x # xs) = join '','' (x # ys')" by simp
  have "join '','' xs = join '','' ys'"
  proof (cases "xs = []")
    case True
    with rest have "ys' = []" by (auto simp: join_Cons split: if_splits)
    with True show ?thesis by simp
  next
    case False
    with rest have "ys' \<noteq> []" by (auto simp: join_Cons split: if_splits)
    with rest False show ?thesis by (simp add: join_Cons)
  qed
  from Cons.IH [OF px(3) py(3) this] xy ys show ?case by simp
qed

lemma hash_bounds_plain:
  assumes "plain (bounds_part ts b1)" "plain (bounds_part ts b2)"
  shows "(shapeHash ts s ad cur b1 = shapeHash ts s ad cur b2)
     = (bounds_part ts b1 = bounds_part ts b2)"
  using hash_bounds [OF plain_solid [OF assms(1)] plain_solid [OF assms(2)], of s ad cur]
    join_inj [OF assms] by auto

lemma hash_modifiers_plain:
  assumes "plain (modifiers_entries ts m1)" "plain (modifiers_entries ts m2)"
  shows "(shapeHash ts (s\<lparr> modifiers := m1 \<rparr>) ad cur b = shapeHash ts (s\<lparr> modifiers := m2 \<rparr>) ad cur b)
     = (modifiers_entries ts m1 = modifiers_entries ts m2)"
  using hash_modifiers [where ts = ts and s = s and ?m1.0 = m1 and ?m2.0 = m2 and ad = ad
      and cur = cur and b = b] join_inj [OF assms] by auto

lemma hash_dest:
  assumes "d1 \<noteq> []" "d2 \<noteq> []" "CHR '','' \<notin> set d1" "CHR '','' \<notin> set d2" "d1 \<noteq> d2"
  shows "shapeHash ts (s\<lparr> dest := Some d1 \<rparr>) ad cur b \<noteq> shapeHash ts (s\<lparr> dest := Some d2 \<rparr>) ad cur b"
proof -
  let ?m1 = "[d1] @ str_part (brush s) @ shared_part ad (Some d1)"
  let ?m2 = "[d2] @ str_part (brush s) @ shared_part ad (Some d2)"
  have "(shapeHash ts (s\<lparr> dest := Some d1 \<rparr>) ad cur b = shapeHash ts (s\<lparr> dest := Some d2 \<rparr>) ad cur b)
      = (join '','' ?m1 = join '','' ?m2)"
    by (rule hash_eq_mid [where pre = "bounds_part ts b @ flag_part cur @ str_part (orig s)"
          and post = "piece_part ts (piece s) @ modifiers_part ts (modifiers s)
            @ custom_part (customSvg s)"])
       (simp_all add: hash_parts_def dest_part_def str_part_def [of d1] str_part_def [of d2]
          assms solid_Cons)
  moreover have "join '','' ?m1 \<noteq> join '','' ?m2"
  proof
    assume e: "join '','' ?m1 = join '','' ?m2"
    obtain r1 where r1: "join '','' ?m1 = d1 @ r1" "r1 = [] \<or> hd r1 = CHR '',''"
      using join_head [of d1 "str_part (brush s) @ shared_part ad (Some d1)"] by auto
    obtain r2 where r2: "join '','' ?m2 = d2 @ r2" "r2 = [] \<or> hd r2 = CHR '',''"
      using join_head [of d2 "str_part (brush s) @ shared_part ad (Some d2)"] by auto
    from e r1(1) r2(1) have "d1 @ r1 = d2 @ r2" by simp
    from comma_split [OF assms(3,4) this r1(2) r2(2)] assms(5) show False by simp
  qed
  ultimately show ?thesis by simp
qed

lemma hash_dest_added:
  assumes "d1 \<noteq> []" "present d0 = None"
  shows "shapeHash ts (s\<lparr> dest := Some d1 \<rparr>) ad cur b \<noteq> shapeHash ts (s\<lparr> dest := d0 \<rparr>) ad cur b"
proof -
  let ?m1 = "[d1] @ str_part (brush s) @ shared_part ad (Some d1)"
  let ?m2 = "str_part (brush s)"
  have d0: "dest_part d0 = []" "shared_part ad d0 = []"
    using assms(2)
    by (auto simp: dest_part_def shared_part_def str_part_def present_def split: option.splits if_splits)
  have "(shapeHash ts (s\<lparr> dest := Some d1 \<rparr>) ad cur b = shapeHash ts (s\<lparr> dest := d0 \<rparr>) ad cur b)
      = (join '','' ?m1 = join '','' ?m2)"
    by (rule hash_eq_mid [where pre = "bounds_part ts b @ flag_part cur @ str_part (orig s)"
          and post = "piece_part ts (piece s) @ modifiers_part ts (modifiers s)
            @ custom_part (customSvg s)"])
       (simp_all add: hash_parts_def d0 dest_part_def [of "Some d1"] str_part_def [of d1] assms
          solid_Cons)
  moreover have "join '','' ?m1 \<noteq> join '','' ?m2"
  proof
    assume "join '','' ?m1 = join '','' ?m2"
    then have "length (join '','' ?m1) = length (join '','' ?m2)" by simp
    with assms(1) show False
      by (auto simp: str_part_def shared_part_def flag_part_def present_def split: if_splits)
  qed
  ultimately show ?thesis by simp
qed

text \<open>
  C5, as the code has it. The claim has every change of the custom content, and every
  change of the bounds size, change the fingerprint. The custom content enters the
  fingerprint through its 32-bit rolling hash only, so two contents with the same hash
  (here the code units of \<open>Aa\<close> and of \<open>BB\<close>, both hashing to 2112) give the same
  fingerprint; and a size of 0 is dropped, so the bounds 0 by 5 and 5 by 0 give the same
  fingerprint.
\<close>

theorem shapeHash_collisions:
  "shapeHash int_text (custom_at ''e4'' [65, 97]) Map.empty False board = ''512,512,e4,custom-2112''
   \<and> shapeHash int_text (custom_at ''e4'' [66, 66]) Map.empty False board = ''512,512,e4,custom-2112''
   \<and> custom_at ''e4'' [65, 97] \<noteq> custom_at ''e4'' [66, 66]
   \<and> shapeHash int_text (arrow_to ''a1'' ''e4'') Map.empty False \<lparr> width = 0, height = 5 \<rparr>
       = ''5,a1,e4,green''
   \<and> shapeHash int_text (arrow_to ''a1'' ''e4'') Map.empty False \<lparr> width = 5, height = 0 \<rparr>
       = ''5,a1,e4,green''"
  by (simp add: shapeHash_def hash_entries_def filter_join_def custom_at_def arrow_to_def board_def
      opt_str_def dest_count_def customSvgHash_def hash_round_31 int_text_def dec_nat.simps
      digit_def)

text \<open>
  C5, amended. \<open>shapeHash\<close> joins with commas, in this order and with the falsy
  entries dropped: bounds width, bounds height, the live flag, origin, destination, brush
  name, the flag "more than one arrow lands on the destination", the piece sub-hash
  (color, role, scale), the modifiers sub-hash (line width, hilite) and the custom-content
  sub-hash (\<open>custom-\<close> and the digits of the rolling hash). Modifiers with line width 0
  and hilite false hash like no modifiers at all. With everything else equal: the live
  flag always changes the fingerprint; a different origin or brush name always changes it;
  adding or removing a destination always changes it, and so does a different destination
  when both are squares without a comma; different modifiers change it exactly when the
  list of their printed non-falsy entries differs; different bounds change it exactly
  when the list of the printed non-zero sizes differs (numbers print as non-empty text
  without a comma); a different custom content changes it exactly when the rolling hash,
  or the presence of a non-empty content, differs.
\<close>

theorem shapeHash_entries_and_sensitivity:
  "shapeHash ts s ad cur b = join '','' (hash_parts ts s ad cur b)
   \<and> shapeHash ts (s\<lparr> modifiers := Some \<lparr> mLineWidth = Some 0, hilite = Some False \<rparr> \<rparr>) ad cur b
       = shapeHash ts (s\<lparr> modifiers := None \<rparr>) ad cur b
   \<and> shapeHash ts s ad True b \<noteq> shapeHash ts s ad False b
   \<and> ((shapeHash ts (s\<lparr> orig := o1 \<rparr>) ad cur b = shapeHash ts (s\<lparr> orig := o2 \<rparr>) ad cur b)
        = (o1 = o2))
   \<and> ((shapeHash ts (s\<lparr> brush := n1 \<rparr>) ad cur b = shapeHash ts (s\<lparr> brush := n2 \<rparr>) ad cur b)
        = (n1 = n2))
   \<and> ((shapeHash ts (s\<lparr> modifiers := m1 \<rparr>) ad cur b = shapeHash ts (s\<lparr> modifiers := m2 \<rparr>) ad cur b)
        = (join '','' (modifiers_entries ts m1) = join '','' (modifiers_entries ts m2)))
   \<and> (plain (modifiers_entries ts m1) \<and> plain (modifiers_entries ts m2) \<longrightarrow>
        (shapeHash ts (s\<lparr> modifiers := m1 \<rparr>) ad cur b = shapeHash ts (s\<lparr> modifiers := m2 \<rparr>) ad cur b)
        = (modifiers_entries ts m1 = modifiers_entries ts m2))
   \<and> ((shapeHash ts (s\<lparr> customSvg := c1 \<rparr>) ad cur b = shapeHash ts (s\<lparr> customSvg := c2 \<rparr>) ad cur b)
        = (custom_hash c1 = custom_hash c2))
   \<and> (solid (bounds_part ts b1) \<and> solid (bounds_part ts b2) \<longrightarrow>
        (shapeHash ts s ad cur b1 = shapeHash ts s ad cur b2)
        = (join '','' (bounds_part ts b1) = join '','' (bounds_part ts b2)))
   \<and> (plain (bounds_part ts b1) \<and> plain (bounds_part ts b2) \<longrightarrow>
        (shapeHash ts s ad cur b1 = shapeHash ts s ad cur b2)
        = (bounds_part ts b1 = bounds_part ts b2))
   \<and> (d1 \<noteq> [] \<and> d2 \<noteq> [] \<and> CHR '','' \<notin> set d1 \<and> CHR '','' \<notin> set d2 \<and> d1 \<noteq> d2 \<longrightarrow>
        shapeHash ts (s\<lparr> dest := Some d1 \<rparr>) ad cur b \<noteq> shapeHash ts (s\<lparr> dest := Some d2 \<rparr>) ad cur b)
   \<and> (d1 \<noteq> [] \<longrightarrow>
        shapeHash ts (s\<lparr> dest := Some d1 \<rparr>) ad cur b \<noteq> shapeHash ts (s\<lparr> dest := None \<rparr>) ad cur b
        \<and> shapeHash ts (s\<lparr> dest := Some d1 \<rparr>) ad cur b \<noteq> shapeHash ts (s\<lparr> dest := Some [] \<rparr>) ad cur b)"
proof -
  have falsy: "shapeHash ts (s\<lparr> modifiers := Some \<lparr> mLineWidth = Some 0, hilite = Some False \<rparr> \<rparr>) ad cur b
       = shapeHash ts (s\<lparr> modifiers := None \<rparr>) ad cur b"
    by (simp add: hash_modifiers modifiers_entries_def num_part_def flag_part_def)
  have added: "shapeHash ts (s\<lparr> dest := Some d1 \<rparr>) ad cur b \<noteq> shapeHash ts (s\<lparr> dest := None \<rparr>) ad cur b
        \<and> shapeHash ts (s\<lparr> dest := Some d1 \<rparr>) ad cur b \<noteq> shapeHash ts (s\<lparr> dest := Some [] \<rparr>) ad cur b"
    if "d1 \<noteq> []"
    using hash_dest_added [OF that, of None ts s ad cur b]
      hash_dest_added [OF that, of "Some []" ts s ad cur b]
    by (simp add: present_def)
  show ?thesis
    using falsy added hash_live [of ts s ad b] hash_bounds [of ts b1 b2 s ad cur]
      hash_bounds_plain [of ts b1 b2 s ad cur] hash_modifiers_plain [of ts m1 m2 s ad cur b]
      hash_dest [of d1 d2 ts s ad cur b]
    by (simp only: shapeHash_parts [symmetric] hash_orig hash_brush hash_modifiers hash_custom)
       blast
qed

theorem shapeHash_entries_and_sensitivity_witness:
  "shapeHash int_text (arrow_to ''a1'' ''e4'') Map.empty False board
     \<noteq> shapeHash int_text (arrow_to ''a1'' ''e4'') Map.empty False \<lparr> width = 256, height = 256 \<rparr>
   \<and> shapeHash int_text ((arrow_to ''a1'' ''e4'')\<lparr> dest := Some ''e4'' \<rparr>) Map.empty False board
     \<noteq> shapeHash int_text ((arrow_to ''a1'' ''e4'')\<lparr> dest := Some ''e5'' \<rparr>) Map.empty False board
   \<and> shapeHash int_text ((arrow_to ''a1'' ''e4'')\<lparr> dest := Some ''e4'' \<rparr>) Map.empty False board
     \<noteq> shapeHash int_text ((arrow_to ''a1'' ''e4'')\<lparr> dest := None \<rparr>) Map.empty False board
   \<and> shapeHash int_text ((arrow_to ''a1'' ''e4'')\<lparr> customSvg := Some [65] \<rparr>) Map.empty False board
     \<noteq> shapeHash int_text ((arrow_to ''a1'' ''e4'')\<lparr> customSvg := Some [66] \<rparr>) Map.empty False board
   \<and> shapeHash int_text ((arrow_to ''a1'' ''e4'')
          \<lparr> modifiers := Some \<lparr> mLineWidth = Some 6, hilite = None \<rparr> \<rparr>) Map.empty False board
     \<noteq> shapeHash int_text ((arrow_to ''a1'' ''e4'')
          \<lparr> modifiers := Some \<lparr> mLineWidth = Some 8, hilite = None \<rparr> \<rparr>) Map.empty False board"
proof -
  note t = shapeHash_entries_and_sensitivity [where ts = int_text and s = "arrow_to ''a1'' ''e4''"
      and ad = Map.empty and cur = False and b = board and ?b1.0 = board
      and ?b2.0 = "\<lparr> width = 256, height = 256 \<rparr>" and ?d1.0 = "''e4''" and ?d2.0 = "''e5''"
      and ?c1.0 = "Some [65]" and ?c2.0 = "Some [66]"
      and ?m1.0 = "Some \<lparr> mLineWidth = Some 6, hilite = None \<rparr>"
      and ?m2.0 = "Some \<lparr> mLineWidth = Some 8, hilite = None \<rparr>"]
  note tail6 = t [THEN conjunct2, THEN conjunct2, THEN conjunct2, THEN conjunct2, THEN conjunct2,
      THEN conjunct2]
  note mods = tail6 [THEN conjunct1, rule_format]
  note custom = tail6 [THEN conjunct2, THEN conjunct1]
  note bounds = tail6 [THEN conjunct2, THEN conjunct2, THEN conjunct2, THEN conjunct1, rule_format]
  note dest = tail6 [THEN conjunct2, THEN conjunct2, THEN conjunct2, THEN conjunct2,
      THEN conjunct1, rule_format]
  note added = tail6 [THEN conjunct2, THEN conjunct2, THEN conjunct2, THEN conjunct2,
      THEN conjunct2, rule_format, THEN conjunct1]
  have pb: "plain (bounds_part int_text board)
      \<and> plain (bounds_part int_text \<lparr> width = 256, height = 256 \<rparr>)"
    by (simp add: bounds_part_def num_part_def board_def plain_def int_text_def dec_nat.simps
        digit_def)
  have first: "shapeHash int_text (arrow_to ''a1'' ''e4'') Map.empty False board
     \<noteq> shapeHash int_text (arrow_to ''a1'' ''e4'') Map.empty False \<lparr> width = 256, height = 256 \<rparr>"
    unfolding bounds [OF pb]
    by (simp add: bounds_part_def num_part_def board_def int_text_def dec_nat.simps digit_def)
  have sd: "''e4'' \<noteq> [] \<and> ''e5'' \<noteq> [] \<and> CHR '','' \<notin> set ''e4'' \<and> CHR '','' \<notin> set ''e5''
      \<and> ''e4'' \<noteq> ''e5''"
    by simp
  have ne: "''e4'' \<noteq> []" by simp
  have fourth: "shapeHash int_text ((arrow_to ''a1'' ''e4'')\<lparr> customSvg := Some [65] \<rparr>) Map.empty False board
     \<noteq> shapeHash int_text ((arrow_to ''a1'' ''e4'')\<lparr> customSvg := Some [66] \<rparr>) Map.empty False board"
    unfolding custom by (simp add: custom_hash_def present_def)
  have pm: "plain (modifiers_entries int_text (Some \<lparr> mLineWidth = Some 6, hilite = None \<rparr>))
      \<and> plain (modifiers_entries int_text (Some \<lparr> mLineWidth = Some 8, hilite = None \<rparr>))"
    by (simp add: modifiers_entries_def num_part_def flag_part_def plain_def int_text_def
        dec_nat.simps digit_def)
  have fifth: "shapeHash int_text ((arrow_to ''a1'' ''e4'')
          \<lparr> modifiers := Some \<lparr> mLineWidth = Some 6, hilite = None \<rparr> \<rparr>) Map.empty False board
     \<noteq> shapeHash int_text ((arrow_to ''a1'' ''e4'')
          \<lparr> modifiers := Some \<lparr> mLineWidth = Some 8, hilite = None \<rparr> \<rparr>) Map.empty False board"
    unfolding mods [OF pm]
    by (simp add: modifiers_entries_def num_part_def flag_part_def int_text_def dec_nat.simps
        digit_def)
  from first dest [OF sd] added [OF ne] fourth fifth show ?thesis
    by (intro conjI)
qed

end
